theory Spec2Isabelle
  imports Main "HOL-Library.Word" "HOL-Library.Monad_Syntax"
begin

unbundle bit_operations_syntax

section \<open>Data model of pa3.c\<close>

text \<open>
  The C file works on five globals (\<^verbatim>\<open>processes\<close>, \<^verbatim>\<open>current\<close>, \<^verbatim>\<open>ptbr\<close>, \<^verbatim>\<open>tlb\<close>,
  \<^verbatim>\<open>mapcounts\<close>) and on heap blocks obtained from \<^verbatim>\<open>malloc\<close>. The embedding passes
  them around as one record. Every \<^verbatim>\<open>unsigned int\<close> is a 32-bit word. A C array is the
  list of its elements, so the length of the list is the declared size of the array:
  \<^verbatim>\<open>NR_TLB_ENTRIES\<close> for \<^verbatim>\<open>tlb\<close>, \<^verbatim>\<open>NR_PAGEFRAMES\<close> for \<^verbatim>\<open>mapcounts\<close>, and
  \<^verbatim>\<open>NR_PTES_PER_PAGE\<close> for \<^verbatim>\<open>outer_ptes\<close> and \<^verbatim>\<open>ptes\<close>.

  A result of type \<open>option\<close> is \<open>None\<close> where the C program has no defined behaviour: an
  index outside an array, a NULL or freed pointer that is dereferenced.
\<close>

type_synonym u32 = "32 word"

text \<open>\<^verbatim>\<open>struct pte\<close>: the fields \<^verbatim>\<open>valid\<close>, \<^verbatim>\<open>rw\<close>, \<^verbatim>\<open>pfn\<close>, \<^verbatim>\<open>private\<close>.\<close>

record pte =
  pte_valid :: bool
  pte_rw :: u32
  pte_pfn :: u32
  pte_private :: u32

text \<open>\<^verbatim>\<open>struct tlb_entry\<close>: the fields \<^verbatim>\<open>valid\<close>, \<^verbatim>\<open>rw\<close>, \<^verbatim>\<open>vpn\<close>, \<^verbatim>\<open>pfn\<close>.\<close>

record tlb_entry =
  tlb_valid :: bool
  tlb_rw :: u32
  tlb_vpn :: u32
  tlb_pfn :: u32

text \<open>
  \<^verbatim>\<open>struct pagetable\<close> holds \<^verbatim>\<open>struct pte_directory *outer_ptes[NR_PTES_PER_PAGE]\<close>. A
  pointer to a directory is \<open>None\<close> (NULL) or \<open>Some a\<close>, the address \<open>a\<close> of a block in
  the directory store.
\<close>

record pagetable =
  outer_ptes :: "nat option list"

text \<open>\<^verbatim>\<open>struct process\<close>: the pid and the page table embedded in the process.\<close>

record process =
  pid :: u32
  pagetable :: pagetable

text \<open>
  The macros of the headers that are not part of pa3.c are parameters. \<^verbatim>\<open>NR_TLB_ENTRIES\<close>
  and \<^verbatim>\<open>NR_PAGEFRAMES\<close> are the lengths of \<open>tlb\<close> and \<open>mapcounts\<close>.
\<close>

record config =
  PTES_PER_PAGE_SHIFT :: nat
  NR_PTES_PER_PAGE :: nat
  ACCESS_READ :: u32
  ACCESS_WRITE :: u32

text \<open>
  The machine state.
  \<^item> \<open>procs\<close> is the store of \<^verbatim>\<open>struct process\<close> blocks, addressed by position;
    \<open>current\<close> and the elements of \<open>processes\<close> (the ready queue, head first) are
    addresses into it; \<open>ptbr\<close> is the address of the process whose embedded page table
    \<^verbatim>\<open>ptbr\<close> points to.
  \<^item> \<open>dirs\<close> is the store of \<^verbatim>\<open>struct pte_directory\<close> blocks: \<open>Some d\<close> is a live block
    with the entries \<open>d\<close>, \<open>None\<close> a block that was given back with \<^verbatim>\<open>free\<close>.
    \<^verbatim>\<open>malloc\<close> always returns a new address (the length of the store).
  \<^item> \<open>junk\<close> is the content of memory that \<^verbatim>\<open>malloc\<close> returns and the program has not
    written yet; no theorem assumes anything about it.
\<close>

record state =
  processes :: "nat list"
  current :: nat
  ptbr :: nat
  tlb :: "tlb_entry list"
  mapcounts :: "u32 list"
  procs :: "process list"
  dirs :: "pte list option list"
  junk :: pte

section \<open>Memory access\<close>

definition nth_opt :: "'a list \<Rightarrow> nat \<Rightarrow> 'a option" where
  "nth_opt xs i = (if i < length xs then Some (xs ! i) else None)"

text \<open>Dereferencing a directory pointer: defined only for a live block.\<close>

definition get_dir :: "state \<Rightarrow> nat \<Rightarrow> pte list option" where
  "get_dir s a = (if a < length (dirs s) then dirs s ! a else None)"

text \<open>\<^verbatim>\<open>vpn >> PTES_PER_PAGE_SHIFT\<close> and \<^verbatim>\<open>vpn % (1 << PTES_PER_PAGE_SHIFT)\<close>.\<close>

definition vpn1_of :: "config \<Rightarrow> u32 \<Rightarrow> nat" where
  "vpn1_of cfg vpn = unat vpn div 2 ^ PTES_PER_PAGE_SHIFT cfg"

definition vpn2_of :: "config \<Rightarrow> u32 \<Rightarrow> nat" where
  "vpn2_of cfg vpn = unat vpn mod 2 ^ PTES_PER_PAGE_SHIFT cfg"

text \<open>The directory that \<^verbatim>\<open>ptbr->outer_ptes[vpn1]\<close> points to, with its address.\<close>

definition ptbr_slot :: "state \<Rightarrow> nat \<Rightarrow> nat option option" where
  "ptbr_slot s vpn1 =
     do { p \<leftarrow> nth_opt (procs s) (ptbr s);
          nth_opt (outer_ptes (pagetable p)) vpn1 }"

section \<open>lookup_tlb\<close>

text \<open>
  The condition of the loop is \<^verbatim>\<open>tlb[i].vpn == vpn && tlb[i].rw & rw == rw && tlb[i].valid\<close>.
  In C \<^verbatim>\<open>==\<close> binds tighter than \<^verbatim>\<open>&\<close>, and \<^verbatim>\<open>&\<close> tighter than \<^verbatim>\<open>&&\<close>, so the middle
  conjunct is \<^verbatim>\<open>tlb[i].rw & (rw == rw)\<close>, where the comparison has the value 1 or 0.
  The result is \<open>Some pfn\<close> for \<^verbatim>\<open>true\<close> with \<^verbatim>\<open>*pfn\<close> written, \<open>None\<close> for \<^verbatim>\<open>false\<close>.
\<close>

fun lookup_tlb_loop :: "tlb_entry list \<Rightarrow> u32 \<Rightarrow> u32 \<Rightarrow> u32 option" where
  "lookup_tlb_loop [] vpn rw = None"
| "lookup_tlb_loop (e # es) vpn rw =
     (if tlb_vpn e = vpn \<and> (tlb_rw e AND (if rw = rw then 1 else 0)) \<noteq> 0 \<and> tlb_valid e
      then Some (tlb_pfn e)
      else lookup_tlb_loop es vpn rw)"

definition lookup_tlb :: "u32 \<Rightarrow> u32 \<Rightarrow> state \<Rightarrow> u32 option" where
  "lookup_tlb vpn rw s = lookup_tlb_loop (tlb s) vpn rw"

section \<open>insert_tlb\<close>

text \<open>
  The first loop, \<^verbatim>\<open>for(idx = 0; tlb[idx].valid; idx++);\<close>, has no bound: with every
  entry valid it reads past the array.
\<close>

fun first_invalid :: "tlb_entry list \<Rightarrow> nat option" where
  "first_invalid [] = None"
| "first_invalid (e # es) =
     (if tlb_valid e then map_option Suc (first_invalid es) else Some 0)"

text \<open>The second loop: the first valid entry for \<open>vpn\<close>, if there is one.\<close>

fun first_match :: "tlb_entry list \<Rightarrow> u32 \<Rightarrow> nat option" where
  "first_match [] vpn = None"
| "first_match (e # es) vpn =
     (if tlb_valid e \<and> tlb_vpn e = vpn then Some 0
      else map_option Suc (first_match es vpn))"

definition insert_tlb :: "u32 \<Rightarrow> u32 \<Rightarrow> u32 \<Rightarrow> state \<Rightarrow> state option" where
  "insert_tlb vpn rw pfn s =
     do { free_idx \<leftarrow> first_invalid (tlb s);
          let target_tlb_idx = (case first_match (tlb s) vpn of
                                  Some i \<Rightarrow> i | None \<Rightarrow> free_idx);
          Some (s\<lparr>tlb := (tlb s)[target_tlb_idx :=
                   \<lparr>tlb_valid = True, tlb_rw = rw, tlb_vpn = vpn, tlb_pfn = pfn\<rparr>]\<rparr>) }"

section \<open>alloc_page\<close>

text \<open>The scan \<^verbatim>\<open>for(pfn = 0; pfn < NR_PAGEFRAMES; pfn++) if(!mapcounts[pfn]) break;\<close>.\<close>

fun find_free :: "u32 list \<Rightarrow> nat" where
  "find_free [] = 0"
| "find_free (c # cs) = (if c = 0 then 0 else Suc (find_free cs))"

text \<open>
  \<^verbatim>\<open>malloc(sizeof(struct pte_directory))\<close> followed by the loop that sets \<^verbatim>\<open>valid\<close> of
  every entry to false; the other fields keep what the block held. The new address is
  stored in \<^verbatim>\<open>ptbr->outer_ptes[vpn1]\<close>.
\<close>

definition new_directory :: "config \<Rightarrow> nat \<Rightarrow> state \<Rightarrow> nat \<times> state" where
  "new_directory cfg vpn1 s =
     (let a = length (dirs s);
          p = procs s ! ptbr s;
          p' = p\<lparr>pagetable := (pagetable p)\<lparr>outer_ptes :=
                 (outer_ptes (pagetable p))[vpn1 := Some a]\<rparr>\<rparr>
      in (a, s\<lparr>dirs := dirs s @ [Some (replicate (NR_PTES_PER_PAGE cfg)
                                          ((junk s)\<lparr>pte_valid := False\<rparr>))],
               procs := (procs s)[ptbr s := p']\<rparr>))"

text \<open>Writing one entry of the live directory at address \<open>a\<close>.\<close>

definition set_pte :: "nat \<Rightarrow> nat \<Rightarrow> pte \<Rightarrow> state \<Rightarrow> state option" where
  "set_pte a vpn2 e s =
     do { d \<leftarrow> get_dir s a;
          if vpn2 < length d
          then Some (s\<lparr>dirs := (dirs s)[a := Some (d[vpn2 := e])]\<rparr>)
          else None }"

definition alloc_page :: "config \<Rightarrow> u32 \<Rightarrow> u32 \<Rightarrow> state \<Rightarrow> (u32 \<times> state) option" where
  "alloc_page cfg vpn rw s =
     (let pfn = find_free (mapcounts s) in
      if pfn < length (mapcounts s) then
        (let s1 = s\<lparr>mapcounts := (mapcounts s)[pfn := mapcounts s ! pfn + 1]\<rparr>;
             vpn1 = vpn1_of cfg vpn;
             vpn2 = vpn2_of cfg vpn
         in do { slot \<leftarrow> ptbr_slot s1 vpn1;
                 let (a, s2) = (case slot of
                                  None \<Rightarrow> new_directory cfg vpn1 s1
                                | Some a \<Rightarrow> (a, s1));
                 s3 \<leftarrow> set_pte a vpn2
                        \<lparr>pte_valid = True, pte_rw = rw, pte_pfn = of_nat pfn,
                         pte_private = 0\<rparr> s2;
                 Some (of_nat pfn, s3) })
      else Some (- 1, s))"

section \<open>free_page\<close>

text \<open>
  \<^verbatim>\<open>free(ptbr->outer_ptes[vpn1])\<close> gives the block back; the pointer in the page table
  is not assigned afterwards, so \<open>outer_ptes\<close> is not part of the update. The last loop
  tests \<^verbatim>\<open>tlb[i].vpn == vpn && mapcounts[pfn] == 0\<close> on every entry, valid or not.
\<close>

definition free_page :: "config \<Rightarrow> u32 \<Rightarrow> state \<Rightarrow> state option" where
  "free_page cfg vpn s =
     (let vpn1 = vpn1_of cfg vpn;
          vpn2 = vpn2_of cfg vpn
      in do { slot \<leftarrow> ptbr_slot s vpn1;
              a \<leftarrow> slot;
              d \<leftarrow> get_dir s a;
              target_pte \<leftarrow> nth_opt d vpn2;
              let pfn = unat (pte_pfn target_pte);
              c \<leftarrow> nth_opt (mapcounts s) pfn;
              let mc = (mapcounts s)[pfn := c - 1];
              let d' = d[vpn2 := target_pte\<lparr>pte_valid := False\<rparr>];
              let is_ptes_empty = list_all (\<lambda>e. \<not> pte_valid e) d';
              let ds = (dirs s)[a := (if is_ptes_empty then None else Some d')];
              let t = map (\<lambda>e. if tlb_vpn e = vpn \<and> mc ! pfn = 0
                                 then e\<lparr>tlb_valid := False\<rparr> else e) (tlb s);
              Some (s\<lparr>mapcounts := mc, dirs := ds, tlb := t\<rparr>) })"

section \<open>handle_page_fault\<close>

text \<open>The two loops over the TLB at the end of the function.\<close>

definition tlb_set_pfn :: "u32 \<Rightarrow> u32 \<Rightarrow> tlb_entry list \<Rightarrow> tlb_entry list" where
  "tlb_set_pfn vpn pfn t =
     map (\<lambda>e. if tlb_valid e \<and> tlb_vpn e = vpn then e\<lparr>tlb_pfn := pfn\<rparr> else e) t"

definition tlb_set_rw :: "u32 \<Rightarrow> u32 \<Rightarrow> tlb_entry list \<Rightarrow> tlb_entry list" where
  "tlb_set_rw vpn rw t =
     map (\<lambda>e. if tlb_valid e \<and> tlb_vpn e = vpn then e\<lparr>tlb_rw := rw\<rparr> else e) t"

text \<open>
  The condition \<^verbatim>\<open>!(pte->rw & rw) && pte->private & rw\<close> is
  \<^verbatim>\<open>(!(pte->rw & rw)) && (pte->private & rw)\<close>. The value of \<^verbatim>\<open>alloc_page\<close> is stored
  without a test, also when it is -1.
\<close>

definition handle_page_fault ::
  "config \<Rightarrow> u32 \<Rightarrow> u32 \<Rightarrow> state \<Rightarrow> (bool \<times> state) option" where
  "handle_page_fault cfg vpn rw s =
     (let vpn1 = vpn1_of cfg vpn;
          vpn2 = vpn2_of cfg vpn
      in do { slot \<leftarrow> ptbr_slot s vpn1;
              case slot of
                None \<Rightarrow> Some (True, s)
              | Some a \<Rightarrow>
                  do { d \<leftarrow> get_dir s a;
                       pte \<leftarrow> nth_opt d vpn2;
                       if \<not> pte_valid pte then Some (True, s)
                       else if pte_rw pte AND rw = 0 \<and> pte_private pte AND rw \<noteq> 0 then
                         do { let pte1 = pte\<lparr>pte_rw := pte_private pte, pte_private := 0\<rparr>;
                              s1 \<leftarrow> set_pte a vpn2 pte1 s;
                              let old = unat (pte_pfn pte1);
                              c \<leftarrow> nth_opt (mapcounts s1) old;
                              s3 \<leftarrow> (if 1 < c then
                                       do { let s2 = s1\<lparr>mapcounts := (mapcounts s1)[old := c - 1]\<rparr>;
                                            (pfn, s2') \<leftarrow> alloc_page cfg vpn (pte_rw pte1) s2;
                                            Some (s2'\<lparr>tlb := tlb_set_pfn vpn pfn (tlb s2')\<rparr>) }
                                     else Some s1);
                              Some (True, s3\<lparr>tlb := tlb_set_rw vpn rw (tlb s3)\<rparr>) }
                       else Some (False, s) } })"

section \<open>switch_process\<close>

text \<open>\<^verbatim>\<open>list_for_each_entry\<close> with the test \<^verbatim>\<open>pos->pid == pid\<close>.\<close>

fun find_process :: "process list \<Rightarrow> nat list \<Rightarrow> u32 \<Rightarrow> nat option option" where
  "find_process ps [] p = Some None"
| "find_process ps (pos # rest) p =
     do { q \<leftarrow> nth_opt ps pos;
          if pid q = p then Some (Some pos) else find_process ps rest p }"

text \<open>The body of the inner loop of the copy: the write to the parent's entry.\<close>

definition cow_protect :: "config \<Rightarrow> pte \<Rightarrow> pte" where
  "cow_protect cfg e =
     (if pte_rw e AND ACCESS_WRITE cfg \<noteq> 0
      then e\<lparr>pte_private := pte_rw e, pte_rw := ACCESS_READ cfg\<rparr>
      else e)"

text \<open>
  The copy loop over \<^verbatim>\<open>current->pagetable.outer_ptes\<close>. For a directory that is
  present it allocates a block for the child, rewrites every entry of the parent's
  directory and assigns it to the child's. The result is the child's \<open>outer_ptes\<close> and
  the directory store.
\<close>

fun copy_pagetable ::
  "config \<Rightarrow> nat option list \<Rightarrow> pte list option list \<Rightarrow>
     (nat option list \<times> pte list option list) option" where
  "copy_pagetable cfg [] ds = Some ([], ds)"
| "copy_pagetable cfg (None # slots) ds =
     do { (new, ds') \<leftarrow> copy_pagetable cfg slots ds;
          Some (None # new, ds') }"
| "copy_pagetable cfg (Some a # slots) ds =
     do { d \<leftarrow> (if a < length ds then ds ! a else None);
          let d' = map (cow_protect cfg) d;
          (new, ds') \<leftarrow> copy_pagetable cfg slots (ds[a := Some d'] @ [Some d']);
          Some (Some (length ds) # new, ds') }"

text \<open>The loops that increment \<^verbatim>\<open>mapcounts\<close> for the valid entries of the child.\<close>

fun count_dir :: "pte list \<Rightarrow> u32 list \<Rightarrow> u32 list option" where
  "count_dir [] mc = Some mc"
| "count_dir (e # es) mc =
     (if pte_valid e
      then (if unat (pte_pfn e) < length mc
            then count_dir es (mc[unat (pte_pfn e) := mc ! unat (pte_pfn e) + 1])
            else None)
      else count_dir es mc)"

fun count_pagetable ::
  "nat option list \<Rightarrow> pte list option list \<Rightarrow> u32 list \<Rightarrow> u32 list option" where
  "count_pagetable [] ds mc = Some mc"
| "count_pagetable (None # slots) ds mc = count_pagetable slots ds mc"
| "count_pagetable (Some a # slots) ds mc =
     do { d \<leftarrow> (if a < length ds then ds ! a else None);
          mc' \<leftarrow> count_dir d mc;
          count_pagetable slots ds mc' }"

text \<open>
  Modelled from the spec: \<^verbatim>\<open>list_add_tail\<close> of list_head.h, which is not among the
  sources. The spec has the current process pushed onto the tail of the ready list, and
  names no case in which that fails. The ready list is the sequence of the processes
  pushed; since \<open>switch_process\<close> does not take a process off the list, a process can
  occur on it more than once.
\<close>

definition list_add_tail :: "nat \<Rightarrow> nat list \<Rightarrow> nat list" where
  "list_add_tail new head = head @ [new]"

text \<open>The branch \<^verbatim>\<open>if(!next_process)\<close>: the new process and the state after the fork.\<close>

definition fork :: "config \<Rightarrow> u32 \<Rightarrow> state \<Rightarrow> (nat \<times> state) option" where
  "fork cfg p s =
     do { cur \<leftarrow> nth_opt (procs s) (current s);
          (new, ds) \<leftarrow> copy_pagetable cfg (outer_ptes (pagetable cur)) (dirs s);
          mc \<leftarrow> count_pagetable new ds (mapcounts s);
          Some (length (procs s),
                s\<lparr>procs := procs s @ [\<lparr>pid = p, pagetable = \<lparr>outer_ptes = new\<rparr>\<rparr>],
                  dirs := ds, mapcounts := mc\<rparr>) }"

definition switch_process :: "config \<Rightarrow> u32 \<Rightarrow> state \<Rightarrow> state option" where
  "switch_process cfg p s =
     do { found \<leftarrow> find_process (procs s) (processes s) p;
          (next_process, s1) \<leftarrow> (case found of
                                     Some pos \<Rightarrow> Some (pos, s)
                                   | None \<Rightarrow> fork cfg p s);
          Some (s1\<lparr>processes := list_add_tail (current s1) (processes s1),
                   current := next_process, ptbr := next_process,
                   tlb := map (\<lambda>e. e\<lparr>tlb_valid := False\<rparr>) (tlb s1)\<rparr>) }"

section \<open>The page-table walk\<close>

text \<open>
  Modelled from the spec: \<^verbatim>\<open>translate\<close>, the walk of the active page table, which is
  part of the framework and not among the sources. The spec splits \<open>vpn\<close> into a
  directory index and an entry index and signals a fault when the directory is absent,
  when the entry is invalid and when the rights of the entry are insufficient; \<open>None\<close>
  is the fault.
\<close>

definition translate :: "config \<Rightarrow> u32 \<Rightarrow> u32 \<Rightarrow> state \<Rightarrow> u32 option" where
  "translate cfg vpn rw s =
     (case ptbr_slot s (vpn1_of cfg vpn) of
        Some (Some a) \<Rightarrow>
          (case get_dir s a of
             Some d \<Rightarrow>
               (case nth_opt d (vpn2_of cfg vpn) of
                  Some e \<Rightarrow> if pte_valid e \<and> pte_rw e AND rw = rw
                            then Some (pte_pfn e) else None
                | None \<Rightarrow> None)
           | None \<Rightarrow> None)
      | _ \<Rightarrow> None)"

text \<open>
  The entry \<^verbatim>\<open>outer_ptes[vpn1]->ptes[vpn2]\<close> of the page table of the process at
  address \<open>p\<close>, where it can be read.
\<close>

definition pte_of :: "config \<Rightarrow> state \<Rightarrow> nat \<Rightarrow> u32 \<Rightarrow> pte option" where
  "pte_of cfg s p vpn =
     do { q \<leftarrow> nth_opt (procs s) p;
          slot \<leftarrow> nth_opt (outer_ptes (pagetable q)) (vpn1_of cfg vpn);
          a \<leftarrow> slot;
          d \<leftarrow> get_dir s a;
          nth_opt d (vpn2_of cfg vpn) }"

section \<open>Observations on page tables\<close>

text \<open>The addresses of the directories of a page table, in the order of the slots.\<close>

fun dir_addrs :: "nat option list \<Rightarrow> nat list" where
  "dir_addrs [] = []"
| "dir_addrs (None # slots) = dir_addrs slots"
| "dir_addrs (Some a # slots) = a # dir_addrs slots"

text \<open>All entries of the live directories of a page table.\<close>

fun pagetable_entries :: "pte list option list \<Rightarrow> nat option list \<Rightarrow> pte list" where
  "pagetable_entries ds [] = []"
| "pagetable_entries ds (None # slots) = pagetable_entries ds slots"
| "pagetable_entries ds (Some a # slots) =
     (case (if a < length ds then ds ! a else None) of
        Some d \<Rightarrow> d | None \<Rightarrow> []) @ pagetable_entries ds slots"

text \<open>The number of valid entries among \<open>es\<close> that map frame \<open>f\<close>.\<close>

definition nr_mappings :: "pte list \<Rightarrow> nat \<Rightarrow> nat" where
  "nr_mappings es f = length (filter (\<lambda>e. pte_valid e \<and> unat (pte_pfn e) = f) es)"

text \<open>
  What the copy loop of the fork does to one slot of the parent, read from the directory
  stores before (\<open>ds\<close>) and after (\<open>ds'\<close>): a NULL slot stays NULL in the child; for a
  directory at \<open>a\<close> the child gets a block \<open>b\<close> that did not exist before, and both
  blocks hold the parent's entries after the write protection.
\<close>

definition copied :: "config \<Rightarrow> pte list option list \<Rightarrow> pte list option list \<Rightarrow>
    nat option \<Rightarrow> nat option \<Rightarrow> bool" where
  "copied cfg ds ds' slot nslot =
     (case slot of
        None \<Rightarrow> nslot = None
      | Some a \<Rightarrow>
          (\<exists>b d. nslot = Some b \<and> length ds \<le> b \<and> b < length ds' \<and> ds ! a = Some d \<and>
                 ds' ! a = Some (map (cow_protect cfg) d) \<and>
                 ds' ! b = Some (map (cow_protect cfg) d)))"

section \<open>Consistency of the TLB with the page table\<close>

text \<open>
  Every valid TLB entry is confirmed by the page-table walk, for every rights mask
  within the rights of the entry.
\<close>

definition tlb_consistent :: "config \<Rightarrow> state \<Rightarrow> bool" where
  "tlb_consistent cfg s \<longleftrightarrow>
     (\<forall>t\<in>set (tlb s). tlb_valid t \<longrightarrow>
        (\<forall>r. r AND tlb_rw t = r \<longrightarrow> translate cfg (tlb_vpn t) r s = Some (tlb_pfn t)))"

text \<open>
  A state before any operation: no valid TLB entry, no directory, every frame free.
\<close>

definition empty_state :: "state \<Rightarrow> bool" where
  "empty_state s \<longleftrightarrow>
     list_all (\<lambda>t. \<not> tlb_valid t) (tlb s) \<and> dirs s = [] \<and>
     list_all (\<lambda>p. list_all (\<lambda>slot. slot = None) (outer_ptes (pagetable p))) (procs s) \<and>
     list_all (\<lambda>c. c = 0) (mapcounts s)"

text \<open>
  A fault that \<open>handle_page_fault\<close> can resolve: when the entry for \<open>vpn\<close> passes the
  test for a copy-on-write fault, the requested rights lie within the backup, and a frame
  is free when the frame of the entry is shared.
\<close>

definition cow_resolvable :: "config \<Rightarrow> u32 \<Rightarrow> u32 \<Rightarrow> state \<Rightarrow> bool" where
  "cow_resolvable cfg vpn rw s \<longleftrightarrow>
     (case pte_of cfg s (ptbr s) vpn of
        None \<Rightarrow> True
      | Some e \<Rightarrow>
          pte_valid e \<and> pte_rw e AND rw = 0 \<and> pte_private e AND rw \<noteq> 0 \<longrightarrow>
          pte_private e AND rw = rw \<and>
          (case nth_opt (mapcounts s) (unat (pte_pfn e)) of
             None \<Rightarrow> True
           | Some c \<Rightarrow> 1 < c \<longrightarrow> 0 \<in> set (mapcounts s)))"

text \<open>The TLB holds no valid entry for \<open>vpn\<close>.\<close>

definition uncached :: "u32 \<Rightarrow> state \<Rightarrow> bool" where
  "uncached vpn s \<longleftrightarrow> list_all (\<lambda>t. \<not> (tlb_valid t \<and> tlb_vpn t = vpn)) (tlb s)"

text \<open>
  The frame of the entry for \<open>vpn\<close> has the count 1, so that \<open>free_page\<close> brings it
  to 0.
\<close>

definition last_reference :: "config \<Rightarrow> u32 \<Rightarrow> state \<Rightarrow> bool" where
  "last_reference cfg vpn s \<longleftrightarrow>
     (case pte_of cfg s (ptbr s) vpn of
        None \<Rightarrow> False
      | Some e \<Rightarrow> nth_opt (mapcounts s) (unat (pte_pfn e)) = Some 1)"

text \<open>
  The states reached from an empty state by the operations, every call with a defined
  result. \<open>insert_tlb\<close> stores the result of a successful walk. On a page without a
  valid TLB entry \<open>alloc_page\<close>, \<open>free_page\<close> and \<open>handle_page_fault\<close> are called
  freely. On a page with a valid TLB entry \<open>alloc_page\<close> is called only when no frame
  is free, \<open>free_page\<close> only for the last reference to the frame, and a fault only when
  it is resolvable. \<open>switch_process\<close> is called freely. \<open>lookup_tlb\<close> does not change
  the state and needs no rule.
\<close>

inductive reachable :: "config \<Rightarrow> state \<Rightarrow> bool" for cfg :: config where
  start: "empty_state s \<Longrightarrow> reachable cfg s"
| insert: "reachable cfg s \<Longrightarrow> translate cfg vpn rw s = Some pfn \<Longrightarrow>
           insert_tlb vpn rw pfn s = Some s' \<Longrightarrow> reachable cfg s'"
| alloc: "reachable cfg s \<Longrightarrow> uncached vpn s \<or> 0 \<notin> set (mapcounts s) \<Longrightarrow>
          alloc_page cfg vpn rw s = Some (r, s') \<Longrightarrow> reachable cfg s'"
| free: "reachable cfg s \<Longrightarrow> uncached vpn s \<or> last_reference cfg vpn s \<Longrightarrow>
         free_page cfg vpn s = Some s' \<Longrightarrow> reachable cfg s'"
| fault: "reachable cfg s \<Longrightarrow> uncached vpn s \<or> cow_resolvable cfg vpn rw s \<Longrightarrow>
          handle_page_fault cfg vpn rw s = Some (ok, s') \<Longrightarrow> reachable cfg s'"
| switch: "reachable cfg s \<Longrightarrow> switch_process cfg p s = Some s' \<Longrightarrow> reachable cfg s'"

text \<open>
  The directories of every page table are pairwise different blocks of the store.
\<close>

definition tables_ok :: "state \<Rightarrow> bool" where
  "tables_ok s \<longleftrightarrow>
     (\<forall>p\<in>set (procs s). distinct (dir_addrs (outer_ptes (pagetable p))) \<and>
        (\<forall>a\<in>set (dir_addrs (outer_ptes (pagetable p))). a < length (dirs s)))"

text \<open>A valid TLB entry has a valid page-table entry with its frame and rights.\<close>

definition tlb_backed :: "config \<Rightarrow> state \<Rightarrow> bool" where
  "tlb_backed cfg s \<longleftrightarrow>
     (\<forall>t\<in>set (tlb s). tlb_valid t \<longrightarrow>
        (\<exists>e. pte_of cfg s (ptbr s) (tlb_vpn t) = Some e \<and> pte_valid e \<and>
             pte_pfn e = tlb_pfn t \<and> pte_rw e AND tlb_rw t = tlb_rw t))"

section \<open>Concrete inputs\<close>

text \<open>
  A small instance of the parameters: two entries per directory, two directories per
  page table, read is bit 0 and write is bit 1.
\<close>

definition example_cfg :: config where
  "example_cfg =
     \<lparr>PTES_PER_PAGE_SHIFT = 1, NR_PTES_PER_PAGE = 2, ACCESS_READ = 1, ACCESS_WRITE = 2\<rparr>"

definition example_junk :: pte where
  "example_junk = \<lparr>pte_valid = True, pte_rw = 7, pte_pfn = 9, pte_private = 11\<rparr>"

definition no_entry :: tlb_entry where
  "no_entry = \<lparr>tlb_valid = False, tlb_rw = 0, tlb_vpn = 0, tlb_pfn = 0\<rparr>"

text \<open>One process that maps page 0 to frame 0 for reading and writing; the TLB caches it.\<close>

definition one_page_state :: state where
  "one_page_state =
     \<lparr>processes = [], current = 0, ptbr = 0,
      tlb = [\<lparr>tlb_valid = True, tlb_rw = 3, tlb_vpn = 0, tlb_pfn = 0\<rparr>, no_entry],
      mapcounts = [1, 0, 0],
      procs = [\<lparr>pid = 0, pagetable = \<lparr>outer_ptes = [Some 0, None]\<rparr>\<rparr>],
      dirs = [Some [\<lparr>pte_valid = True, pte_rw = 3, pte_pfn = 0, pte_private = 0\<rparr>,
                    \<lparr>pte_valid = False, pte_rw = 0, pte_pfn = 0, pte_private = 0\<rparr>]],
      junk = example_junk\<rparr>"

text \<open>Process 0 runs, process 1 waits in the ready queue.\<close>

definition two_process_state :: state where
  "two_process_state =
     \<lparr>processes = [1], current = 0, ptbr = 0,
      tlb = [no_entry, no_entry],
      mapcounts = [0, 0, 0],
      procs = [\<lparr>pid = 0, pagetable = \<lparr>outer_ptes = [None, None]\<rparr>\<rparr>,
               \<lparr>pid = 1, pagetable = \<lparr>outer_ptes = [None, None]\<rparr>\<rparr>],
      dirs = [],
      junk = example_junk\<rparr>"

text \<open>One process with a read-only page 0 that has no backup.\<close>

definition read_only_state :: state where
  "read_only_state =
     \<lparr>processes = [], current = 0, ptbr = 0,
      tlb = [no_entry, no_entry],
      mapcounts = [1, 0, 0],
      procs = [\<lparr>pid = 0, pagetable = \<lparr>outer_ptes = [Some 0, None]\<rparr>\<rparr>],
      dirs = [Some [\<lparr>pte_valid = True, pte_rw = 1, pte_pfn = 0, pte_private = 0\<rparr>,
                    \<lparr>pte_valid = False, pte_rw = 0, pte_pfn = 0, pte_private = 0\<rparr>]],
      junk = example_junk\<rparr>"

text \<open>One process with the pages 0 and 1, both readable and writable.\<close>

definition two_pages_state :: state where
  "two_pages_state =
     \<lparr>processes = [], current = 0, ptbr = 0,
      tlb = [no_entry, no_entry],
      mapcounts = [1, 1, 0],
      procs = [\<lparr>pid = 0, pagetable = \<lparr>outer_ptes = [Some 0, None]\<rparr>\<rparr>],
      dirs = [Some [\<lparr>pte_valid = True, pte_rw = 3, pte_pfn = 0, pte_private = 0\<rparr>,
                    \<lparr>pte_valid = True, pte_rw = 3, pte_pfn = 1, pte_private = 0\<rparr>]],
      junk = example_junk\<rparr>"

text \<open>
  The state after \<open>two_pages_state\<close> has forked process 1 and the child has read page 0,
  which put the translation into the TLB.
\<close>

definition forked_state :: state where
  "forked_state =
     \<lparr>processes = [0], current = 1, ptbr = 1,
      tlb = [\<lparr>tlb_valid = True, tlb_rw = 1, tlb_vpn = 0, tlb_pfn = 0\<rparr>, no_entry],
      mapcounts = [2, 2, 0],
      procs = [\<lparr>pid = 0, pagetable = \<lparr>outer_ptes = [Some 0, None]\<rparr>\<rparr>,
               \<lparr>pid = 1, pagetable = \<lparr>outer_ptes = [Some 1, None]\<rparr>\<rparr>],
      dirs = [Some [\<lparr>pte_valid = True, pte_rw = 1, pte_pfn = 0, pte_private = 3\<rparr>,
                    \<lparr>pte_valid = True, pte_rw = 1, pte_pfn = 1, pte_private = 3\<rparr>],
              Some [\<lparr>pte_valid = True, pte_rw = 1, pte_pfn = 0, pte_private = 3\<rparr>,
                    \<lparr>pte_valid = True, pte_rw = 1, pte_pfn = 1, pte_private = 3\<rparr>]],
      junk = example_junk\<rparr>"

text \<open>The same with the last frame in use, so that no frame is free.\<close>

definition forked_full_state :: state where
  "forked_full_state = forked_state\<lparr>mapcounts := [2, 2, 1]\<rparr>"

text \<open>
  The state after the child has written to page 0 (it now owns frame 2) and the parent
  runs again: frame 0 is mapped by the parent alone.
\<close>

definition parent_resumed_state :: state where
  "parent_resumed_state =
     \<lparr>processes = [0, 1], current = 0, ptbr = 0,
      tlb = [\<lparr>tlb_valid = False, tlb_rw = 2, tlb_vpn = 0, tlb_pfn = 2\<rparr>, no_entry],
      mapcounts = [1, 2, 1],
      procs = [\<lparr>pid = 0, pagetable = \<lparr>outer_ptes = [Some 0, None]\<rparr>\<rparr>,
               \<lparr>pid = 1, pagetable = \<lparr>outer_ptes = [Some 1, None]\<rparr>\<rparr>],
      dirs = [Some [\<lparr>pte_valid = True, pte_rw = 1, pte_pfn = 0, pte_private = 3\<rparr>,
                    \<lparr>pte_valid = True, pte_rw = 1, pte_pfn = 1, pte_private = 3\<rparr>],
              Some [\<lparr>pte_valid = True, pte_rw = 3, pte_pfn = 2, pte_private = 0\<rparr>,
                    \<lparr>pte_valid = True, pte_rw = 1, pte_pfn = 1, pte_private = 3\<rparr>]],
      junk = example_junk\<rparr>"

text \<open>One process without pages.\<close>

definition boot_state :: state where
  "boot_state =
     \<lparr>processes = [], current = 0, ptbr = 0,
      tlb = [no_entry, no_entry],
      mapcounts = [0, 0, 0],
      procs = [\<lparr>pid = 0, pagetable = \<lparr>outer_ptes = [None, None]\<rparr>\<rparr>],
      dirs = [],
      junk = example_junk\<rparr>"

text \<open>
  \<open>forked_state\<close> after the child has freed page 0, whose frame the parent still maps.
\<close>

definition freed_shared_state :: state where
  "freed_shared_state =
     forked_state
       \<lparr>mapcounts := [1, 2, 0],
        dirs := [Some [\<lparr>pte_valid = True, pte_rw = 1, pte_pfn = 0, pte_private = 3\<rparr>,
                       \<lparr>pte_valid = True, pte_rw = 1, pte_pfn = 1, pte_private = 3\<rparr>],
                 Some [\<lparr>pte_valid = False, pte_rw = 1, pte_pfn = 0, pte_private = 3\<rparr>,
                       \<lparr>pte_valid = True, pte_rw = 1, pte_pfn = 1, pte_private = 3\<rparr>]]\<rparr>"

text \<open>
  \<open>boot_state\<close> after page 0 was allocated and freed again: every frame is free, the
  block of the directory is freed and slot 0 still holds its address.
\<close>

definition released_state :: state where
  "released_state =
     boot_state
       \<lparr>procs := [\<lparr>pid = 0, pagetable = \<lparr>outer_ptes = [Some 0, None]\<rparr>\<rparr>],
        dirs := [None]\<rparr>"

text \<open>\<open>forked_state\<close> reached with a switch to the parent and back to the child.\<close>

definition round_trip_state :: state where
  "round_trip_state = forked_state\<lparr>processes := [0, 1, 0]\<rparr>"

text \<open>\<open>round_trip_state\<close> after the child has written to page 0.\<close>

definition child_written_state :: state where
  "child_written_state =
     round_trip_state
       \<lparr>tlb := [\<lparr>tlb_valid = True, tlb_rw = 2, tlb_vpn = 0, tlb_pfn = 2\<rparr>, no_entry],
        mapcounts := [1, 2, 1],
        dirs := [Some [\<lparr>pte_valid = True, pte_rw = 1, pte_pfn = 0, pte_private = 3\<rparr>,
                       \<lparr>pte_valid = True, pte_rw = 1, pte_pfn = 1, pte_private = 3\<rparr>],
                 Some [\<lparr>pte_valid = True, pte_rw = 3, pte_pfn = 2, pte_private = 0\<rparr>,
                       \<lparr>pte_valid = True, pte_rw = 1, pte_pfn = 1, pte_private = 3\<rparr>]]\<rparr>"

section \<open>Evaluation\<close>

lemmas eval_defs =
  nth_opt_def get_dir_def vpn1_of_def vpn2_of_def ptbr_slot_def set_pte_def pte_of_def
  lookup_tlb_def insert_tlb_def alloc_page_def new_directory_def free_page_def
  tlb_set_pfn_def tlb_set_rw_def handle_page_fault_def cow_protect_def list_add_tail_def
  fork_def switch_process_def translate_def

lemmas example_defs =
  example_cfg_def example_junk_def no_entry_def one_page_state_def two_process_state_def
  read_only_state_def two_pages_state_def forked_state_def forked_full_state_def
  parent_resumed_state_def boot_state_def freed_shared_state_def released_state_def
  round_trip_state_def child_written_state_def

section \<open>Basic facts\<close>

lemma replicate_2: "replicate 2 x = [x, x]"
  by (simp add: numeral_2_eq_2)

lemma find_free_le: "find_free mc \<le> length mc"
  by (induction mc) auto

lemma find_free_zero: "find_free mc < length mc \<Longrightarrow> mc ! find_free mc = 0"
  by (induction mc) (auto split: if_splits)

lemma find_free_least: "j < find_free mc \<Longrightarrow> mc ! j \<noteq> 0"
proof (induction mc arbitrary: j)
  case Nil
  then show ?case by simp
next
  case (Cons c cs)
  then show ?case by (cases j) (auto split: if_splits)
qed

lemma find_free_lt_iff: "find_free mc < length mc \<longleftrightarrow> (\<exists>i<length mc. mc ! i = 0)"
proof
  assume "find_free mc < length mc"
  then show "\<exists>i<length mc. mc ! i = 0" using find_free_zero by blast
next
  assume "\<exists>i<length mc. mc ! i = 0"
  then obtain i where i: "i < length mc" "mc ! i = 0" by blast
  have "\<not> i < find_free mc" using find_free_least i(2) by blast
  then show "find_free mc < length mc" using i(1) by simp
qed

lemma find_free_update:
  "mc ! i \<noteq> 0 \<Longrightarrow> v \<noteq> 0 \<Longrightarrow> find_free (mc[i := v]) = find_free mc"
proof (induction mc arbitrary: i)
  case Nil
  then show ?case by simp
next
  case (Cons c cs)
  then show ?case by (cases i) auto
qed

lemma unat_of_nat_u32: "k < 2 ^ 31 \<Longrightarrow> unat (of_nat k :: u32) = k"
  by (simp add: unat_of_nat)


lemma ptbr_slot_upd [simp]:
  "ptbr_slot (s\<lparr>mapcounts := m\<rparr>) v = ptbr_slot s v"
  "ptbr_slot (s\<lparr>tlb := t\<rparr>) v = ptbr_slot s v"
  "ptbr_slot (s\<lparr>dirs := ds\<rparr>) v = ptbr_slot s v"
  by (simp_all add: ptbr_slot_def)

lemma get_dir_upd [simp]:
  "get_dir (s\<lparr>mapcounts := m\<rparr>) a = get_dir s a"
  "get_dir (s\<lparr>tlb := t\<rparr>) a = get_dir s a"
  "get_dir (s\<lparr>procs := ps\<rparr>) a = get_dir s a"
  by (simp_all add: get_dir_def)

lemma alloc_page_full:
  "\<not> find_free (mapcounts s) < length (mapcounts s) \<Longrightarrow> alloc_page cfg vpn rw s = Some (- 1, s)"
  by (simp add: alloc_page_def)

lemma alloc_page_new_dir:
  assumes "find_free (mapcounts s) < length (mapcounts s)"
    and "nth_opt (procs s) (ptbr s) = Some p"
    and "nth_opt (outer_ptes (pagetable p)) (vpn1_of cfg vpn) = Some None"
    and "vpn2_of cfg vpn < NR_PTES_PER_PAGE cfg"
  shows "alloc_page cfg vpn rw s =
     Some (of_nat (find_free (mapcounts s)),
       s\<lparr>mapcounts := (mapcounts s)[find_free (mapcounts s) := mapcounts s ! find_free (mapcounts s) + 1],
         dirs := dirs s @ [Some ((replicate (NR_PTES_PER_PAGE cfg) ((junk s)\<lparr>pte_valid := False\<rparr>))
                   [vpn2_of cfg vpn := \<lparr>pte_valid = True, pte_rw = rw,
                      pte_pfn = of_nat (find_free (mapcounts s)), pte_private = 0\<rparr>])],
         procs := (procs s)[ptbr s := p\<lparr>pagetable := (pagetable p)\<lparr>outer_ptes :=
                 (outer_ptes (pagetable p))[vpn1_of cfg vpn := Some (length (dirs s))]\<rparr>\<rparr>]\<rparr>)"
  using assms
  by (simp add: alloc_page_def Let_def ptbr_slot_def new_directory_def set_pte_def
        get_dir_def nth_opt_def split: if_splits)

lemma alloc_page_old_dir:
  assumes "find_free (mapcounts s) < length (mapcounts s)"
    and "ptbr_slot s (vpn1_of cfg vpn) = Some (Some a)"
    and "get_dir s a = Some d"
    and "vpn2_of cfg vpn < length d"
  shows "alloc_page cfg vpn rw s =
     Some (of_nat (find_free (mapcounts s)),
       s\<lparr>mapcounts := (mapcounts s)[find_free (mapcounts s) := mapcounts s ! find_free (mapcounts s) + 1],
         dirs := (dirs s)[a := Some (d[vpn2_of cfg vpn := \<lparr>pte_valid = True, pte_rw = rw,
                      pte_pfn = of_nat (find_free (mapcounts s)), pte_private = 0\<rparr>])]\<rparr>)"
  using assms
  by (simp add: alloc_page_def Let_def set_pte_def)

lemma word_gt_1: "(1 :: u32) < c \<Longrightarrow> c \<noteq> 0 \<and> c - 1 \<noteq> 0"
  by auto

lemma set_pte_live:
  "get_dir s a = Some d \<Longrightarrow> i < length d \<Longrightarrow>
   set_pte a i e s = Some (s\<lparr>dirs := (dirs s)[a := Some (d[i := e])]\<rparr>)"
  by (simp add: set_pte_def)

lemma get_dir_same:
  "get_dir s a = Some d0 \<Longrightarrow> get_dir (s\<lparr>dirs := (dirs s)[a := x]\<rparr>) a = x"
  by (auto simp: get_dir_def split: if_splits)

lemma get_dir_other:
  "b \<noteq> a \<Longrightarrow> get_dir (s\<lparr>dirs := (dirs s)[a := x]\<rparr>) b = get_dir s b"
  by (auto simp: get_dir_def split: if_splits)

lemma handle_page_fault_in_place:
  assumes "ptbr_slot s (vpn1_of cfg vpn) = Some (Some a)"
    and "get_dir s a = Some d"
    and "nth_opt d (vpn2_of cfg vpn) = Some e"
    and "pte_valid e" "pte_rw e AND rw = 0" "pte_private e AND rw \<noteq> 0"
    and "nth_opt (mapcounts s) (unat (pte_pfn e)) = Some c"
    and "\<not> 1 < c"
  shows "handle_page_fault cfg vpn rw s =
     Some (True, s\<lparr>dirs := (dirs s)[a := Some (d[vpn2_of cfg vpn :=
                       e\<lparr>pte_rw := pte_private e, pte_private := 0\<rparr>])],
                   tlb := tlb_set_rw vpn rw (tlb s)\<rparr>)"
proof -
  have i: "vpn2_of cfg vpn < length d" using assms(3) by (simp add: nth_opt_def split: if_splits)
  show ?thesis
    using assms
    by (simp add: handle_page_fault_def Let_def set_pte_live [OF assms(2) i])
qed

lemma handle_page_fault_copy:
  assumes "ptbr_slot s (vpn1_of cfg vpn) = Some (Some a)"
    and "get_dir s a = Some d"
    and "nth_opt d (vpn2_of cfg vpn) = Some e"
    and "pte_valid e" "pte_rw e AND rw = 0" "pte_private e AND rw \<noteq> 0"
    and "nth_opt (mapcounts s) (unat (pte_pfn e)) = Some c"
    and "1 < c"
    and "find_free (mapcounts s) < length (mapcounts s)"
  shows "handle_page_fault cfg vpn rw s =
     Some (True, s\<lparr>dirs := (dirs s)[a := Some (d[vpn2_of cfg vpn :=
                       \<lparr>pte_valid = True, pte_rw = pte_private e,
                        pte_pfn = of_nat (find_free (mapcounts s)), pte_private = 0\<rparr>])],
                   mapcounts := (mapcounts s)[unat (pte_pfn e) := c - 1,
                                             find_free (mapcounts s) := 1],
                   tlb := tlb_set_rw vpn rw
                            (tlb_set_pfn vpn (of_nat (find_free (mapcounts s))) (tlb s))\<rparr>)"
proof -
  define k where "k = find_free (mapcounts s)"
  define pte1 where "pte1 = e\<lparr>pte_rw := pte_private e, pte_private := 0\<rparr>"
  define s1 where "s1 = s\<lparr>dirs := (dirs s)[a := Some (d[vpn2_of cfg vpn := pte1])]\<rparr>"
  define s2 where "s2 = s1\<lparr>mapcounts := (mapcounts s1)[unat (pte_pfn e) := c - 1]\<rparr>"
  have i: "vpn2_of cfg vpn < length d" using assms(3) by (simp add: nth_opt_def split: if_splits)
  have old: "unat (pte_pfn e) < length (mapcounts s)" "mapcounts s ! unat (pte_pfn e) = c"
    using assms(7) by (auto simp: nth_opt_def split: if_splits)
  have c: "c \<noteq> 0" "c - 1 \<noteq> 0" using word_gt_1 [OF assms(8)] by auto
  have ff: "find_free (mapcounts s2) = k"
    using old c by (simp add: s2_def s1_def k_def find_free_update)
  have k0: "mapcounts s ! k = 0" using assms(9) find_free_zero by (simp add: k_def)
  have kne: "k \<noteq> unat (pte_pfn e)" using k0 old c by auto
  have klt: "find_free (mapcounts s2) < length (mapcounts s2)"
    using assms(9) ff by (simp add: s2_def s1_def k_def)
  have sl: "ptbr_slot s2 (vpn1_of cfg vpn) = Some (Some a)"
    using assms(1) by (simp add: s2_def s1_def)
  have gd: "get_dir s2 a = Some (d[vpn2_of cfg vpn := pte1])"
    using get_dir_same [OF assms(2)] by (simp add: s2_def s1_def)
  have i2: "vpn2_of cfg vpn < length (d[vpn2_of cfg vpn := pte1])" using i by simp
  note al = alloc_page_old_dir [OF klt sl gd i2, of "pte_private e"]
  have s1: "set_pte a (vpn2_of cfg vpn) pte1 s = Some s1"
    using set_pte_live [OF assms(2) i] by (simp add: s1_def)
  have cnt1: "nth_opt (mapcounts s1) (unat (pte_pfn e)) = Some c"
    using assms(7) by (simp add: s1_def)
  show ?thesis
    using assms(1-6) assms(8) s1 cnt1 al ff kne k0 old
    apply (simp add: handle_page_fault_def Let_def pte1_def[symmetric] s2_def[symmetric])
    apply (simp add: pte1_def s2_def s1_def k_def)
    done
qed

lemma alloc_page_frame:
  assumes "alloc_page cfg vpn rw s = Some (r, s')"
    and "ptbr_slot s (vpn1_of cfg vpn) = Some (Some a)"
  shows "procs s' = procs s \<and> ptbr s' = ptbr s \<and> tlb s' = tlb s \<and>
         length (dirs s') = length (dirs s) \<and>
         (\<forall>b. b \<noteq> a \<longrightarrow> get_dir s' b = get_dir s b)"
  using assms
  by (auto simp: alloc_page_def Let_def set_pte_def get_dir_def
           split: if_splits Option.bind_splits)


lemma handle_page_fault_cases:
  assumes run: "handle_page_fault cfg vpn rw s = Some (r, s')"
    and slot: "ptbr_slot s (vpn1_of cfg vpn) = Some (Some a)"
  obtains
    (unchanged) "s' = s"
  | (in_place) d e c where
      "get_dir s a = Some d" "nth_opt d (vpn2_of cfg vpn) = Some e"
      "pte_valid e" "pte_rw e AND rw = 0" "pte_private e AND rw \<noteq> 0"
      "nth_opt (mapcounts s) (unat (pte_pfn e)) = Some c" "\<not> 1 < c" "r"
      "s' = s\<lparr>dirs := (dirs s)[a := Some (d[vpn2_of cfg vpn :=
                       e\<lparr>pte_rw := pte_private e, pte_private := 0\<rparr>])],
              tlb := tlb_set_rw vpn rw (tlb s)\<rparr>"
  | (copy) d e c pfn s2 where
      "get_dir s a = Some d" "nth_opt d (vpn2_of cfg vpn) = Some e"
      "pte_valid e" "pte_rw e AND rw = 0" "pte_private e AND rw \<noteq> 0"
      "nth_opt (mapcounts s) (unat (pte_pfn e)) = Some c" "1 < c" "r"
      "alloc_page cfg vpn (pte_private e)
         (s\<lparr>dirs := (dirs s)[a := Some (d[vpn2_of cfg vpn :=
                       e\<lparr>pte_rw := pte_private e, pte_private := 0\<rparr>])],
            mapcounts := (mapcounts s)[unat (pte_pfn e) := c - 1]\<rparr>) = Some (pfn, s2)"
      "s' = s2\<lparr>tlb := tlb_set_rw vpn rw (tlb_set_pfn vpn pfn (tlb s2))\<rparr>"
proof -
  obtain d where d: "get_dir s a = Some d"
    using run slot by (cases "get_dir s a") (simp_all add: handle_page_fault_def Let_def)
  obtain e where e: "nth_opt d (vpn2_of cfg vpn) = Some e"
    using run slot d
    by (cases "nth_opt d (vpn2_of cfg vpn)") (simp_all add: handle_page_fault_def Let_def)
  have i: "vpn2_of cfg vpn < length d" using e by (simp add: nth_opt_def split: if_splits)
  show thesis
  proof (cases "pte_valid e \<and> pte_rw e AND rw = 0 \<and> pte_private e AND rw \<noteq> 0")
    case False
    then have "s' = s"
      using run slot d e by (auto simp: handle_page_fault_def Let_def split: if_splits)
    then show thesis by (rule unchanged)
  next
    case True
    obtain c where c: "nth_opt (mapcounts s) (unat (pte_pfn e)) = Some c"
      using run slot d e True
      by (cases "nth_opt (mapcounts s) (unat (pte_pfn e))")
         (simp_all add: handle_page_fault_def Let_def set_pte_live [OF d i])
    show thesis
    proof (cases "1 < c")
      case False
      have "handle_page_fault cfg vpn rw s =
          Some (True, s\<lparr>dirs := (dirs s)[a := Some (d[vpn2_of cfg vpn :=
                       e\<lparr>pte_rw := pte_private e, pte_private := 0\<rparr>])],
                   tlb := tlb_set_rw vpn rw (tlb s)\<rparr>)"
        using handle_page_fault_in_place [OF slot d e _ _ _ c False] True by simp
      with run have "r" and
        "s' = s\<lparr>dirs := (dirs s)[a := Some (d[vpn2_of cfg vpn :=
                       e\<lparr>pte_rw := pte_private e, pte_private := 0\<rparr>])],
              tlb := tlb_set_rw vpn rw (tlb s)\<rparr>"
        by simp_all
      then show thesis using in_place [OF d e _ _ _ c False] True by simp
    next
      case c1: True
      from run slot d e True c c1
      obtain pfn s2 where al: "alloc_page cfg vpn (pte_private e)
         (s\<lparr>dirs := (dirs s)[a := Some (d[vpn2_of cfg vpn :=
                       e\<lparr>pte_rw := pte_private e, pte_private := 0\<rparr>])],
            mapcounts := (mapcounts s)[unat (pte_pfn e) := c - 1]\<rparr>) = Some (pfn, s2)"
        and res: "r" "s' = s2\<lparr>tlb := tlb_set_rw vpn rw (tlb_set_pfn vpn pfn (tlb s2))\<rparr>"
        by (auto simp: handle_page_fault_def Let_def set_pte_live [OF d i]
                 split: Option.bind_splits)
      show thesis using copy [OF d e _ _ _ c c1 res(1) al res(2)] True by simp
    qed
  qed
qed

lemma handle_page_fault_frame:
  assumes run: "handle_page_fault cfg vpn rw s = Some (r, s')"
    and slot: "ptbr_slot s (vpn1_of cfg vpn) = Some (Some a)"
  shows "procs s' = procs s \<and> ptbr s' = ptbr s \<and>
         (\<forall>b. b \<noteq> a \<longrightarrow> get_dir s' b = get_dir s b)"
  using run slot
proof (cases rule: handle_page_fault_cases)
  case unchanged
  then show ?thesis by simp
next
  case (in_place d e c)
  then show ?thesis by (simp add: get_dir_def)
next
  case (copy d e c pfn s2)
  have "ptbr_slot (s\<lparr>dirs := (dirs s)[a := Some (d[vpn2_of cfg vpn :=
                       e\<lparr>pte_rw := pte_private e, pte_private := 0\<rparr>])],
            mapcounts := (mapcounts s)[unat (pte_pfn e) := c - 1]\<rparr>) (vpn1_of cfg vpn)
        = Some (Some a)"
    using slot by simp
  from alloc_page_frame [OF copy(9) this]
  have "procs s2 = procs s" "ptbr s2 = ptbr s" "\<forall>b. b \<noteq> a \<longrightarrow> get_dir s2 b = get_dir s b"
    by (simp_all add: get_dir_other)
  then show ?thesis using copy(10) by simp
qed

section \<open>The loops of the fork\<close>

lemma count_dir_total:
  "\<forall>e\<in>set d. pte_valid e \<longrightarrow> unat (pte_pfn e) < length mc \<Longrightarrow> \<exists>mc'. count_dir d mc = Some mc'"
  by (induction d arbitrary: mc) auto

lemma nr_mappings_Cons:
  "nr_mappings (e # es) f =
     (if pte_valid e \<and> unat (pte_pfn e) = f then Suc (nr_mappings es f) else nr_mappings es f)"
  by (simp add: nr_mappings_def)

lemma nr_mappings_Nil [simp]: "nr_mappings [] f = 0"
  by (simp add: nr_mappings_def)

lemma nr_mappings_append [simp]:
  "nr_mappings (xs @ ys) f = nr_mappings xs f + nr_mappings ys f"
  by (simp add: nr_mappings_def)

lemma count_dir_counts:
  "count_dir d mc = Some mc' \<Longrightarrow>
     length mc' = length mc \<and>
     (\<forall>f<length mc. mc' ! f = mc ! f + of_nat (nr_mappings d f))"
proof (induction d arbitrary: mc)
  case Nil
  then show ?case by simp
next
  case (Cons e es)
  show ?case
  proof (cases "pte_valid e")
    case False
    then show ?thesis using Cons by (simp add: nr_mappings_Cons)
  next
    case True
    let ?i = "unat (pte_pfn e)"
    from Cons.prems True have i: "?i < length mc"
      and rest: "count_dir es (mc[?i := mc ! ?i + 1]) = Some mc'"
      by (auto split: if_splits)
    from Cons.IH [OF rest]
    have len: "length mc' = length mc"
      and ih: "\<forall>f<length mc. mc' ! f = (mc[?i := mc ! ?i + 1]) ! f + of_nat (nr_mappings es f)"
      by auto
    show ?thesis
    proof (intro conjI allI impI)
      show "length mc' = length mc" by (rule len)
    next
      fix f assume f: "f < length mc"
      show "mc' ! f = mc ! f + of_nat (nr_mappings (e # es) f)"
        using ih [rule_format, OF f] True i f
        by (cases "f = ?i") (simp_all add: nr_mappings_Cons)
    qed
  qed
qed

lemma count_pagetable_total:
  assumes "\<forall>a\<in>set (dir_addrs slots). a < length ds \<and> ds ! a \<noteq> None"
    and "\<forall>e\<in>set (pagetable_entries ds slots). pte_valid e \<longrightarrow> unat (pte_pfn e) < length mc"
  shows "\<exists>mc'. count_pagetable slots ds mc = Some mc'"
  using assms
proof (induction slots ds mc rule: count_pagetable.induct)
  case (1 ds mc)
  then show ?case by simp
next
  case (2 slots ds mc)
  then show ?case by simp
next
  case (3 a slots ds mc)
  from "3.prems" obtain d where d: "a < length ds" "ds ! a = Some d" by auto
  have "\<forall>e\<in>set d. pte_valid e \<longrightarrow> unat (pte_pfn e) < length mc"
    using "3.prems"(2) d by auto
  from count_dir_total [OF this] obtain mc1 where mc1: "count_dir d mc = Some mc1" by blast
  have len: "length mc1 = length mc" using count_dir_counts [OF mc1] by simp
  have "\<exists>mc'. count_pagetable slots ds mc1 = Some mc'"
    using "3.IH" [of d mc1] d mc1 "3.prems" len by auto
  then show ?case using d mc1 by simp
qed

lemma count_pagetable_counts:
  "count_pagetable slots ds mc = Some mc' \<Longrightarrow>
     length mc' = length mc \<and>
     (\<forall>f<length mc. mc' ! f = mc ! f + of_nat (nr_mappings (pagetable_entries ds slots) f))"
proof (induction slots ds mc rule: count_pagetable.induct)
  case (1 ds mc)
  then show ?case by simp
next
  case (2 slots ds mc)
  then show ?case by simp
next
  case (3 a slots ds mc)
  from "3.prems" obtain d mc1 where d: "(if a < length ds then ds ! a else None) = Some d"
    and mc1: "count_dir d mc = Some mc1" and rest: "count_pagetable slots ds mc1 = Some mc'"
    by (auto split: Option.bind_splits)
  note c1 = count_dir_counts [OF mc1]
  note c2 = "3.IH" [OF d mc1 rest]
  show ?case using c1 c2 d by (simp add: algebra_simps)
qed


lemma Some_in_slots: "Some a \<in> set slots \<longleftrightarrow> a \<in> set (dir_addrs slots)"
  by (induction slots rule: dir_addrs.induct) auto

lemma copy_pagetable_spec:
  assumes "\<forall>a\<in>set (dir_addrs slots). a < length ds \<and> ds ! a \<noteq> None"
    and "distinct (dir_addrs slots)"
  shows "\<exists>new ds'. copy_pagetable cfg slots ds = Some (new, ds') \<and>
           length ds \<le> length ds' \<and>
           list_all2 (copied cfg ds ds') slots new \<and>
           (\<forall>x<length ds. x \<notin> set (dir_addrs slots) \<longrightarrow> ds' ! x = ds ! x) \<and>
           (\<forall>b\<in>set (dir_addrs new). length ds \<le> b) \<and>
           distinct (dir_addrs new)"
  using assms
proof (induction cfg slots ds rule: copy_pagetable.induct)
  case (1 cfg ds)
  then show ?case by simp
next
  case (2 cfg slots ds)
  then obtain new ds' where r: "copy_pagetable cfg slots ds = Some (new, ds')"
      "length ds \<le> length ds'" "list_all2 (copied cfg ds ds') slots new"
      "\<forall>x<length ds. x \<notin> set (dir_addrs slots) \<longrightarrow> ds' ! x = ds ! x"
      "\<forall>b\<in>set (dir_addrs new). length ds \<le> b" "distinct (dir_addrs new)"
    by auto
  have head: "copied cfg ds ds' None None" by (simp add: copied_def)
  show ?case
    apply (rule exI [of _ "None # new"])
    apply (rule exI [of _ ds'])
    using r head by simp
next
  case (3 cfg a slots ds)
  from "3.prems" obtain d where d: "a < length ds" "ds ! a = Some d" by auto
  define d' where "d' = map (cow_protect cfg) d"
  define ds1 where "ds1 = ds[a := Some d'] @ [Some d']"
  have a_notin: "a \<notin> set (dir_addrs slots)" using "3.prems"(2) by simp
  have small: "\<forall>x\<in>set (dir_addrs slots). x < length ds \<and> x \<noteq> a \<and> ds ! x \<noteq> None"
    using "3.prems" a_notin by auto
  have len1: "length ds1 = Suc (length ds)" by (simp add: ds1_def)
  have old1: "\<And>x. x < length ds \<Longrightarrow> x \<noteq> a \<Longrightarrow> ds1 ! x = ds ! x"
    by (simp add: ds1_def nth_append)
  have a1: "ds1 ! a = Some d'" using d by (simp add: ds1_def nth_append)
  have n1: "ds1 ! length ds = Some d'" by (simp add: ds1_def nth_append)
  have p1: "\<forall>x\<in>set (dir_addrs slots). x < length ds1 \<and> ds1 ! x \<noteq> None"
    using small old1 len1 by auto
  have p2: "distinct (dir_addrs slots)" using "3.prems"(2) by simp
  have dd: "(if a < length ds then ds ! a else None) = Some d" using d by simp
  from "3.IH" [OF dd d'_def p1 [unfolded ds1_def] p2]
  obtain new ds' where r: "copy_pagetable cfg slots ds1 = Some (new, ds')"
      "length ds1 \<le> length ds'" "list_all2 (copied cfg ds1 ds') slots new"
      "\<forall>x<length ds1. x \<notin> set (dir_addrs slots) \<longrightarrow> ds' ! x = ds1 ! x"
      "\<forall>b\<in>set (dir_addrs new). length ds1 \<le> b" "distinct (dir_addrs new)"
    unfolding ds1_def [symmetric] by auto
  have res: "copy_pagetable cfg (Some a # slots) ds = Some (Some (length ds) # new, ds')"
    using d r(1) by (simp add: d'_def ds1_def Let_def)
  have fin_a: "ds' ! a = Some d'"
    using r(4) [rule_format, of a] d(1) len1 a_notin a1 by simp
  have "length ds \<notin> set (dir_addrs slots)" using small by auto
  then have fin_n: "ds' ! length ds = Some d'"
    using r(4) [rule_format, of "length ds"] len1 n1 by simp
  have head: "copied cfg ds ds' (Some a) (Some (length ds))"
    using d fin_a fin_n r(2) len1 by (simp add: copied_def d'_def)
  have tail: "list_all2 (copied cfg ds ds') slots new"
  proof (rule list.rel_mono_strong [OF r(3)])
    fix slot nslot
    assume "slot \<in> set slots" and c: "copied cfg ds1 ds' slot nslot"
    show "copied cfg ds ds' slot nslot"
    proof (cases slot)
      case None
      then show ?thesis using c by (simp add: copied_def)
    next
      case (Some x)
      then have "x \<in> set (dir_addrs slots)" using \<open>slot \<in> set slots\<close> Some_in_slots by simp
      then have "x < length ds" "x \<noteq> a" using small by auto
      then show ?thesis using c Some old1 [of x] len1 by (auto simp: copied_def)
    qed
  qed
  have keep: "\<forall>x<length ds. x \<notin> set (dir_addrs (Some a # slots)) \<longrightarrow> ds' ! x = ds ! x"
    using r(4) old1 len1 by auto
  have fresh: "\<forall>b\<in>set (dir_addrs (Some (length ds) # new)). length ds \<le> b"
    using r(5) len1 by auto
  have dist: "distinct (dir_addrs (Some (length ds) # new))"
    using r(5,6) len1 by auto
  show ?case
    apply (rule exI [of _ "Some (length ds) # new"])
    apply (rule exI [of _ ds'])
    using res r(2) len1 head tail keep fresh dist by simp
qed


lemma cow_protect_keeps [simp]:
  "pte_valid (cow_protect cfg e) = pte_valid e"
  "pte_pfn (cow_protect cfg e) = pte_pfn e"
  by (simp_all add: cow_protect_def)

lemma copied_entries:
  assumes "list_all2 (copied cfg ds ds') slots new"
    and "\<forall>e\<in>set (pagetable_entries ds slots). pte_valid e \<longrightarrow> unat (pte_pfn e) < n"
    and "\<forall>a\<in>set (dir_addrs slots). a < length ds"
  shows "(\<forall>b\<in>set (dir_addrs new). b < length ds' \<and> ds' ! b \<noteq> None) \<and>
         (\<forall>e\<in>set (pagetable_entries ds' new). pte_valid e \<longrightarrow> unat (pte_pfn e) < n)"
  using assms
proof (induction rule: list_all2_induct)
  case Nil
  then show ?case by simp
next
  case (Cons slot slots nslot new)
  show ?case
  proof (cases slot)
    case None
    then have "nslot = None" using Cons.hyps(1) by (simp add: copied_def)
    then show ?thesis using Cons None by simp
  next
    case (Some a)
    then obtain b d where b: "nslot = Some b" "b < length ds'" "ds ! a = Some d"
        "ds' ! b = Some (map (cow_protect cfg) d)"
      using Cons.hyps(1) by (auto simp: copied_def)
    have a: "a < length ds" using Cons.prems(2) Some by simp
    have d: "\<forall>e\<in>set d. pte_valid e \<longrightarrow> unat (pte_pfn e) < n"
      using Cons.prems(1) Some a b(3) by simp
    have ih: "(\<forall>b\<in>set (dir_addrs new). b < length ds' \<and> ds' ! b \<noteq> None) \<and>
         (\<forall>e\<in>set (pagetable_entries ds' new). pte_valid e \<longrightarrow> unat (pte_pfn e) < n)"
      using Cons.IH Cons.prems Some a b(3) by simp
    show ?thesis using ih b d by auto
  qed
qed

section \<open>The TLB lookup\<close>

text \<open>
  C1. The claim: \<open>lookup_tlb\<close> reports a hit only if a valid entry for \<open>vpn\<close> has rights
  that are a superset of the requested rights. The code at a TLB whose only valid entry
  caches page 0 with the rights 1: a lookup of page 0 for the rights 2 is a hit with the
  cached frame 5, although \<open>1 AND 2 \<noteq> 2\<close>.
\<close>

theorem lookup_tlb_ignores_requested_rights:
  "lookup_tlb 0 2
     \<lparr>processes = [], current = 0, ptbr = 0,
      tlb = [\<lparr>tlb_valid = True, tlb_rw = 1, tlb_vpn = 0, tlb_pfn = 5\<rparr>,
             \<lparr>tlb_valid = False, tlb_rw = 0, tlb_vpn = 0, tlb_pfn = 0\<rparr>],
      mapcounts = [0, 0], procs = [], dirs = [],
      junk = \<lparr>pte_valid = False, pte_rw = 0, pte_pfn = 0, pte_private = 0\<rparr>\<rparr> = Some 5
   \<and> (1 :: u32) AND 2 \<noteq> 2"
  by (simp add: lookup_tlb_def)

section \<open>The fault handler\<close>

text \<open>
  C2. The claim: when the directory for \<open>vpn\<close> is absent or the entry is invalid,
  \<open>handle_page_fault\<close> reports failure and changes nothing. In \<open>one_page_state\<close> page 2
  has no directory and page 1 has an invalid entry; for both the code leaves the state as
  it is and returns \<^verbatim>\<open>true\<close>.
\<close>

theorem handle_page_fault_unmapped_returns_true:
  "pte_of example_cfg one_page_state (ptbr one_page_state) 2 = None
   \<and> ptbr_slot one_page_state (vpn1_of example_cfg 2) = Some None
   \<and> handle_page_fault example_cfg 2 2 one_page_state = Some (True, one_page_state)
   \<and> map_option pte_valid (pte_of example_cfg one_page_state (ptbr one_page_state) 1)
       = Some False
   \<and> handle_page_fault example_cfg 1 2 one_page_state = Some (True, one_page_state)"
  by (simp add: eval_defs example_defs)

text \<open>
  C10. When \<open>handle_page_fault\<close> returns \<^verbatim>\<open>false\<close>, the state after the call is the state
  before it: page tables, TLB and reference counts. It returns \<^verbatim>\<open>false\<close> only for a
  valid entry that fails the test for a copy-on-write fault.
\<close>

theorem handle_page_fault_failure_changes_nothing:
  assumes "handle_page_fault cfg vpn rw s = Some (False, s')"
  shows "s' = s \<and>
         (\<exists>e. pte_of cfg s (ptbr s) vpn = Some e \<and> pte_valid e \<and>
              \<not> (pte_rw e AND rw = 0 \<and> pte_private e AND rw \<noteq> 0))"
  using assms
  by (auto simp: handle_page_fault_def pte_of_def ptbr_slot_def Let_def
           split: option.splits if_splits Option.bind_splits prod.splits)

theorem handle_page_fault_failure_changes_nothing_witness:
  "handle_page_fault example_cfg 0 2 read_only_state = Some (False, read_only_state)
   \<and> (\<exists>e. pte_of example_cfg read_only_state (ptbr read_only_state) 0 = Some e
           \<and> pte_valid e)"
proof -
  have h: "handle_page_fault example_cfg 0 2 read_only_state = Some (False, read_only_state)"
    by (simp add: eval_defs example_defs)
  from handle_page_fault_failure_changes_nothing [OF h] h show ?thesis
    by blast
qed

section \<open>Releasing a page\<close>

text \<open>
  C7. The claim: \<open>free_page\<close> decrements the count of the frame, marks the entry invalid,
  makes the slot of a directory without valid entries absent, and invalidates the TLB
  entry exactly when the count reaches 0. In \<open>one_page_state\<close> page 0 is the only valid
  entry of its directory. After \<open>free_page\<close> the count of frame 0 is 0 and the TLB entry
  is invalid, the block of the directory is freed, but \<^verbatim>\<open>ptbr->outer_ptes[0]\<close> still holds
  its address.
\<close>

theorem free_page_leaves_dangling_directory:
  "map_option (\<lambda>s. (mapcounts s, map tlb_valid (tlb s), dirs s, ptbr_slot s 0))
      (free_page example_cfg 0 one_page_state)
   = Some ([0, 0, 0], [False, False], [None], Some (Some 0))"
  by (simp add: eval_defs example_defs)

section \<open>Switching to a process of the ready queue\<close>

text \<open>
  C5. The claim: the process that is switched to is removed from the ready list, so that
  afterwards the list holds the old current process once and the new one not at all. In
  \<open>two_process_state\<close> process 1 waits; after \<open>switch_process 1\<close> it is the current
  process and is still on the ready list, in front of the old current process.
\<close>

theorem switch_process_keeps_next_on_ready_list:
  "map_option (\<lambda>s. (processes s, current s, ptbr s, map tlb_valid (tlb s)))
      (switch_process example_cfg 1 two_process_state)
   = Some ([1, 0], 1, 1, [False, False])"
  by (simp add: eval_defs example_defs)

section \<open>Allocation\<close>

text \<open>
  Where the slot of \<open>vpn\<close> can be read and is NULL or a live directory, and the frame
  numbers fit an \<^verbatim>\<open>int\<close>, \<open>alloc_page\<close> takes the lowest frame whose count is zero: the
  count becomes 1, the entry for \<open>vpn\<close> becomes valid with the rights given, that frame
  and an empty backup, and the frame number is returned. A directory that was absent is
  created with every other entry invalid; one that was present changes in this entry
  only. Without a free frame the call returns -1 and changes nothing.
\<close>

theorem alloc_page_lowest_free_frame:
  assumes slot: "ptbr_slot s (vpn1_of cfg vpn) = Some slot"
    and safe: "case slot of
                 None \<Rightarrow> vpn2_of cfg vpn < NR_PTES_PER_PAGE cfg
               | Some a \<Rightarrow> (\<exists>d. get_dir s a = Some d \<and> vpn2_of cfg vpn < length d)"
    and frames: "length (mapcounts s) < 2 ^ 31"
  shows "if (\<exists>i<length (mapcounts s). mapcounts s ! i = 0)
         then (\<exists>k s'. alloc_page cfg vpn rw s = Some (of_nat k, s')
                 \<and> unat (of_nat k :: u32) = k \<and> (of_nat k :: u32) \<noteq> - 1
                 \<and> k < length (mapcounts s) \<and> mapcounts s ! k = 0
                 \<and> (\<forall>j<k. mapcounts s ! j \<noteq> 0)
                 \<and> mapcounts s' = (mapcounts s)[k := 1]
                 \<and> pte_of cfg s' (ptbr s') vpn
                     = Some \<lparr>pte_valid = True, pte_rw = rw, pte_pfn = of_nat k, pte_private = 0\<rparr>
                 \<and> (case slot of
                      None \<Rightarrow>
                        (\<exists>d'. ptbr_slot s' (vpn1_of cfg vpn) = Some (Some (length (dirs s)))
                           \<and> get_dir s (length (dirs s)) = None
                           \<and> get_dir s' (length (dirs s)) = Some d'
                           \<and> length d' = NR_PTES_PER_PAGE cfg
                           \<and> (\<forall>j<length d'. j \<noteq> vpn2_of cfg vpn \<longrightarrow> \<not> pte_valid (d' ! j)))
                    | Some a \<Rightarrow>
                        (\<exists>d. get_dir s a = Some d
                           \<and> ptbr_slot s' (vpn1_of cfg vpn) = Some (Some a)
                           \<and> get_dir s' a = Some (d[vpn2_of cfg vpn :=
                                \<lparr>pte_valid = True, pte_rw = rw, pte_pfn = of_nat k,
                                 pte_private = 0\<rparr>]))))
         else alloc_page cfg vpn rw s = Some (- 1, s)"
proof (cases "find_free (mapcounts s) < length (mapcounts s)")
  case False
  then have "\<not> (\<exists>i<length (mapcounts s). mapcounts s ! i = 0)"
    by (simp add: find_free_lt_iff)
  then show ?thesis
    using alloc_page_full [OF False] by (simp only: if_False)
next
  case True
  define k where "k = find_free (mapcounts s)"
  have k: "k < length (mapcounts s)" "mapcounts s ! k = 0"
    using True find_free_zero by (auto simp: k_def)
  have least: "\<forall>j<k. mapcounts s ! j \<noteq> 0"
    using find_free_least by (auto simp: k_def)
  have ex: "\<exists>i<length (mapcounts s). mapcounts s ! i = 0"
    using True by (simp add: find_free_lt_iff)
  have kk: "unat (of_nat k :: u32) = k"
    using k(1) frames by (simp add: unat_of_nat_u32)
  have kne: "(of_nat k :: u32) \<noteq> - 1"
  proof
    assume "(of_nat k :: u32) = - 1"
    then have "unat (of_nat k :: u32) = unat (- 1 :: u32)" by simp
    moreover have "unat (- 1 :: u32) = 4294967295"
      by (simp add: unsigned_minus_1_eq_mask mask_eq_exp_minus_1)
    ultimately show False using kk k(1) frames by simp
  qed
  obtain p where p: "nth_opt (procs s) (ptbr s) = Some p"
      "nth_opt (outer_ptes (pagetable p)) (vpn1_of cfg vpn) = Some slot"
    using slot by (auto simp: ptbr_slot_def split: Option.bind_splits)
  have pr: "ptbr s < length (procs s)" "procs s ! ptbr s = p"
      "vpn1_of cfg vpn < length (outer_ptes (pagetable p))"
    using p by (auto simp: nth_opt_def split: if_splits)
  show ?thesis
  proof (cases slot)
    case None
    note res = alloc_page_new_dir [OF True p(1) p(2)[unfolded None], of rw, folded k_def]
    have v2: "vpn2_of cfg vpn < NR_PTES_PER_PAGE cfg" using safe None by simp
    show ?thesis
      unfolding if_P [OF ex]
      apply (rule exI [of _ k])
      apply (subst res [OF v2])
      apply (rule exI)
      apply (rule conjI, rule refl)
      using k least kk kne pr v2 None
      apply (simp add: pte_of_def ptbr_slot_def get_dir_def nth_opt_def nth_append)
      done
  next
    case (Some a)
    obtain d where d: "get_dir s a = Some d" "vpn2_of cfg vpn < length d"
      using safe Some by auto
    note res = alloc_page_old_dir [OF True slot[unfolded Some] d, of rw, folded k_def]
    have a: "a < length (dirs s)" using d(1) by (auto simp: get_dir_def split: if_splits)
    show ?thesis
      unfolding if_P [OF ex]
      apply (rule exI [of _ k])
      apply (subst res)
      apply (rule exI)
      apply (rule conjI, rule refl)
      using k least kk kne pr d a Some p slot
      apply (simp add: pte_of_def ptbr_slot_def get_dir_def nth_opt_def)
      done
  qed
qed



theorem alloc_page_lowest_free_frame_witness:
  "ptbr_slot one_page_state (vpn1_of example_cfg 2) = Some None
   \<and> vpn2_of example_cfg 2 < NR_PTES_PER_PAGE example_cfg
   \<and> length (mapcounts one_page_state) < 2 ^ 31
   \<and> mapcounts one_page_state = [1, 0, 0]
   \<and> (\<exists>s'. alloc_page example_cfg 2 3 one_page_state = Some (1, s')
          \<and> mapcounts s' = [1, 1, 0]
          \<and> pte_of example_cfg s' (ptbr s') 2
              = Some \<lparr>pte_valid = True, pte_rw = 3, pte_pfn = 1, pte_private = 0\<rparr>)"
proof -
  have h1: "ptbr_slot one_page_state (vpn1_of example_cfg 2) = Some None"
    by (simp add: eval_defs example_defs)
  have h2: "vpn2_of example_cfg 2 < NR_PTES_PER_PAGE example_cfg"
    by (simp add: eval_defs example_defs)
  have h2': "case None of
               None \<Rightarrow> vpn2_of example_cfg 2 < NR_PTES_PER_PAGE example_cfg
             | Some a \<Rightarrow> (\<exists>d. get_dir one_page_state a = Some d
                              \<and> vpn2_of example_cfg 2 < length d)"
    using h2 by simp
  have h3: "length (mapcounts one_page_state) < 2 ^ 31"
    by (simp add: example_defs)
  have mc: "mapcounts one_page_state = [1, 0, 0]"
    by (simp add: example_defs)
  have ex: "\<exists>i<length (mapcounts one_page_state). mapcounts one_page_state ! i = 0"
    by (rule exI [of _ 1]) (simp add: mc)
  from alloc_page_lowest_free_frame [OF h1 h2' h3, of 3, unfolded if_P [OF ex]]
  obtain k s' where r: "alloc_page example_cfg 2 3 one_page_state = Some (of_nat k, s')"
      "k < length (mapcounts one_page_state)" "mapcounts one_page_state ! k = 0"
      "\<forall>j<k. mapcounts one_page_state ! j \<noteq> 0"
      "mapcounts s' = (mapcounts one_page_state)[k := 1]"
      "pte_of example_cfg s' (ptbr s') 2
         = Some \<lparr>pte_valid = True, pte_rw = 3, pte_pfn = of_nat k, pte_private = 0\<rparr>"
    by blast
  have "k = 0 \<or> k = 1 \<or> k = 2" using r(2) by (simp add: mc) arith
  moreover have "k \<noteq> 0"
  proof
    assume "k = 0"
    with r(3) show False by (simp add: mc)
  qed
  moreover have "k \<noteq> 2" using r(4) [rule_format, of 1] by (auto simp: mc)
  ultimately have k: "k = 1" by blast
  show ?thesis using h1 h2 h3 mc r(1,5,6) by (simp add: k)
qed

text \<open>
  C6. The claim: in every state, and after every sequence of frees and allocations,
  \<open>alloc_page\<close> with a free frame makes the entry for \<open>vpn\<close> in the lazily materialized
  directory valid and returns the lowest free frame. A sequence after which it does not:
  from \<open>boot_state\<close> the process allocates page 0 and frees it. Every frame is free
  again and the block of the directory is freed, but \<^verbatim>\<open>ptbr->outer_ptes[0]\<close> still holds
  its address. The next \<open>alloc_page\<close> for page 0 or page 1 finds the slot different from
  NULL, materializes no directory and writes the entry into the freed block.
\<close>

theorem alloc_page_after_free_uses_freed_directory:
  "empty_state boot_state
   \<and> (map_option snd (alloc_page example_cfg 0 3 boot_state) \<bind> free_page example_cfg 0)
        = Some released_state
   \<and> mapcounts released_state = [0, 0, 0]
   \<and> ptbr_slot released_state (vpn1_of example_cfg 0) = Some (Some 0)
   \<and> ptbr_slot released_state (vpn1_of example_cfg 1) = Some (Some 0)
   \<and> get_dir released_state 0 = None
   \<and> alloc_page example_cfg 0 3 released_state = None
   \<and> alloc_page example_cfg 1 3 released_state = None"
proof -
  have "empty_state boot_state"
    by (simp add: empty_state_def example_defs)
  moreover have "(map_option snd (alloc_page example_cfg 0 3 boot_state)
        \<bind> free_page example_cfg 0) = Some released_state"
    by (simp add: eval_defs example_defs Let_def numeral_2_eq_2)
  moreover have "mapcounts released_state = [0, 0, 0]"
    by (simp add: example_defs)
  moreover have "ptbr_slot released_state (vpn1_of example_cfg 0) = Some (Some 0)"
    by (simp add: eval_defs example_defs)
  moreover have "ptbr_slot released_state (vpn1_of example_cfg 1) = Some (Some 0)"
    by (simp add: eval_defs example_defs)
  moreover have "get_dir released_state 0 = None"
    by (simp add: eval_defs example_defs)
  moreover have "alloc_page example_cfg 0 3 released_state = None"
    by (simp add: eval_defs example_defs Let_def)
  moreover have "alloc_page example_cfg 1 3 released_state = None"
    by (simp add: eval_defs example_defs Let_def)
  ultimately show ?thesis by blast
qed

section \<open>Copy on write\<close>

text \<open>
  C3. The claim as stated: for a valid entry whose backup covers the requested rights
  and whose rights do not, \<open>handle_page_fault\<close> restores the rights, clears the backup,
  copies to the lowest free frame when the count is above one, and leaves every TLB entry
  for \<open>vpn\<close> with the restored rights. Three inputs at which the code does something
  else. In \<open>forked_state\<close>, a write fault on page 0 restores the rights 3 and leaves the
  TLB entry with the requested rights 2. A fault for the rights 3 on the same entry,
  whose backup 3 covers them and whose rights 1 do not, returns \<^verbatim>\<open>false\<close>: the test is
  for an empty intersection with the rights and a non-empty one with the backup. In
  \<open>forked_full_state\<close>, where no frame is free, the count of frame 0 is decremented, the
  entry keeps frame 0 and the TLB entry gets the frame number -1.
\<close>

theorem handle_page_fault_cow_counterexample:
  "handle_page_fault example_cfg 0 2 forked_state =
     Some (True, forked_state
       \<lparr>tlb := [\<lparr>tlb_valid = True, tlb_rw = 2, tlb_vpn = 0, tlb_pfn = 2\<rparr>, no_entry],
        mapcounts := [1, 2, 1],
        dirs := [Some [\<lparr>pte_valid = True, pte_rw = 1, pte_pfn = 0, pte_private = 3\<rparr>,
                       \<lparr>pte_valid = True, pte_rw = 1, pte_pfn = 1, pte_private = 3\<rparr>],
                 Some [\<lparr>pte_valid = True, pte_rw = 3, pte_pfn = 2, pte_private = 0\<rparr>,
                       \<lparr>pte_valid = True, pte_rw = 1, pte_pfn = 1, pte_private = 3\<rparr>]]\<rparr>)
   \<and> handle_page_fault example_cfg 0 3 forked_state = Some (False, forked_state)
   \<and> handle_page_fault example_cfg 0 2 forked_full_state =
     Some (True, forked_full_state
       \<lparr>tlb := [\<lparr>tlb_valid = True, tlb_rw = 2, tlb_vpn = 0, tlb_pfn = - 1\<rparr>, no_entry],
        mapcounts := [1, 2, 1],
        dirs := [Some [\<lparr>pte_valid = True, pte_rw = 1, pte_pfn = 0, pte_private = 3\<rparr>,
                       \<lparr>pte_valid = True, pte_rw = 1, pte_pfn = 1, pte_private = 3\<rparr>],
                 Some [\<lparr>pte_valid = True, pte_rw = 3, pte_pfn = 0, pte_private = 0\<rparr>,
                       \<lparr>pte_valid = True, pte_rw = 1, pte_pfn = 1, pte_private = 3\<rparr>]]\<rparr>)"
  by (simp add: eval_defs example_defs)

text \<open>
  C3, amended. For a valid entry whose rights share no bit with the requested rights and
  whose backup shares one, \<open>handle_page_fault\<close> succeeds, restores the rights from the
  backup and clears the backup. When the count of the frame is above one and some frame
  is free, it decrements the count, gives the lowest free frame the count 1 and stores
  its number in the entry and in every valid TLB entry for \<open>vpn\<close>; otherwise the counts
  and the frame of the entry stay. In both cases every valid TLB entry for \<open>vpn\<close> ends
  with the requested rights, and every other TLB entry is unchanged.
\<close>

theorem handle_page_fault_copy_on_write:
  assumes slot: "ptbr_slot s (vpn1_of cfg vpn) = Some (Some a)"
    and dir: "get_dir s a = Some d"
    and ent: "nth_opt d (vpn2_of cfg vpn) = Some e"
    and valid: "pte_valid e"
    and cur: "pte_rw e AND rw = 0"
    and bak: "pte_private e AND rw \<noteq> 0"
    and cnt: "nth_opt (mapcounts s) (unat (pte_pfn e)) = Some c"
    and free: "1 < c \<Longrightarrow> \<exists>i<length (mapcounts s). mapcounts s ! i = 0"
    and frames: "length (mapcounts s) < 2 ^ 31"
  shows "\<exists>s'. handle_page_fault cfg vpn rw s = Some (True, s') \<and>
           length (tlb s') = length (tlb s) \<and>
           (if 1 < c then
              (\<exists>k. k < length (mapcounts s) \<and> mapcounts s ! k = 0 \<and>
                    (\<forall>j<k. mapcounts s ! j \<noteq> 0) \<and> unat (of_nat k :: u32) = k \<and>
                    mapcounts s' = (mapcounts s)[unat (pte_pfn e) := c - 1, k := 1] \<and>
                    pte_of cfg s' (ptbr s') vpn =
                      Some \<lparr>pte_valid = True, pte_rw = pte_private e, pte_pfn = of_nat k,
                            pte_private = 0\<rparr> \<and>
                    (\<forall>i<length (tlb s). tlb s' ! i =
                       (if tlb_valid (tlb s ! i) \<and> tlb_vpn (tlb s ! i) = vpn
                        then (tlb s ! i)\<lparr>tlb_pfn := of_nat k, tlb_rw := rw\<rparr>
                        else tlb s ! i)))
            else
              mapcounts s' = mapcounts s \<and>
              pte_of cfg s' (ptbr s') vpn =
                Some (e\<lparr>pte_rw := pte_private e, pte_private := 0\<rparr>) \<and>
              (\<forall>i<length (tlb s). tlb s' ! i =
                 (if tlb_valid (tlb s ! i) \<and> tlb_vpn (tlb s ! i) = vpn
                  then (tlb s ! i)\<lparr>tlb_rw := rw\<rparr>
                  else tlb s ! i)))"
proof -
  have i: "vpn2_of cfg vpn < length d" using ent by (simp add: nth_opt_def split: if_splits)
  have a: "a < length (dirs s)" using dir by (auto simp: get_dir_def split: if_splits)
  obtain p where p: "nth_opt (procs s) (ptbr s) = Some p"
      "nth_opt (outer_ptes (pagetable p)) (vpn1_of cfg vpn) = Some (Some a)"
    using slot by (auto simp: ptbr_slot_def split: Option.bind_splits)
  show ?thesis
  proof (cases "1 < c")
    case False
    note res = handle_page_fault_in_place [OF slot dir ent valid cur bak cnt False]
    show ?thesis
      apply (subst res)
      apply (rule exI)
      apply (rule conjI, rule refl)
      using False p i a
      apply (simp add: pte_of_def get_dir_def tlb_set_rw_def nth_opt_def)
      done
  next
    case True
    define k where "k = find_free (mapcounts s)"
    have klt: "find_free (mapcounts s) < length (mapcounts s)"
      using free [OF True] by (simp add: find_free_lt_iff)
    have k: "k < length (mapcounts s)" "mapcounts s ! k = 0"
      using klt find_free_zero by (auto simp: k_def)
    have least: "\<forall>j<k. mapcounts s ! j \<noteq> 0"
      using find_free_least by (auto simp: k_def)
    have kk: "unat (of_nat k :: u32) = k"
      using k(1) frames by (simp add: unat_of_nat_u32)
    note res = handle_page_fault_copy [OF slot dir ent valid cur bak cnt True klt, folded k_def]
    show ?thesis
      apply (subst res)
      apply (rule exI)
      apply (rule conjI, rule refl)
      unfolding if_P [OF True]
      apply (simp add: tlb_set_rw_def tlb_set_pfn_def)
      apply (rule exI [of _ k])
      using k least kk p i a
      apply (simp add: pte_of_def get_dir_def tlb_set_rw_def tlb_set_pfn_def nth_opt_def)
      done
  qed
qed



theorem handle_page_fault_copy_on_write_witness:
  "ptbr_slot forked_state (vpn1_of example_cfg 0) = Some (Some 1)
   \<and> pte_of example_cfg forked_state (ptbr forked_state) 0
       = Some \<lparr>pte_valid = True, pte_rw = 1, pte_pfn = 0, pte_private = 3\<rparr>
   \<and> nth_opt (mapcounts forked_state) 0 = Some 2
   \<and> (\<exists>s'. handle_page_fault example_cfg 0 2 forked_state = Some (True, s')
          \<and> mapcounts s' = [1, 2, 1]
          \<and> pte_of example_cfg s' (ptbr s') 0
              = Some \<lparr>pte_valid = True, pte_rw = 3, pte_pfn = 2, pte_private = 0\<rparr>
          \<and> tlb s' ! 0 = \<lparr>tlb_valid = True, tlb_rw = 2, tlb_vpn = 0, tlb_pfn = 2\<rparr>)"
proof -
  let ?e = "\<lparr>pte_valid = True, pte_rw = 1, pte_pfn = 0, pte_private = 3\<rparr>"
  let ?d = "[?e, \<lparr>pte_valid = True, pte_rw = 1, pte_pfn = 1, pte_private = 3\<rparr>]"
  have slot: "ptbr_slot forked_state (vpn1_of example_cfg 0) = Some (Some 1)"
    by (simp add: eval_defs example_defs)
  have dir: "get_dir forked_state 1 = Some ?d"
    by (simp add: eval_defs example_defs)
  have ent: "nth_opt ?d (vpn2_of example_cfg 0) = Some ?e"
    by (simp add: eval_defs example_defs)
  have pte: "pte_of example_cfg forked_state (ptbr forked_state) 0 = Some ?e"
    by (simp add: eval_defs example_defs)
  have mc: "mapcounts forked_state = [2, 2, 0]"
    by (simp add: example_defs)
  have cnt: "nth_opt (mapcounts forked_state) (unat (pte_pfn ?e)) = Some 2"
    by (simp add: nth_opt_def mc)
  have free: "\<exists>i<length (mapcounts forked_state). mapcounts forked_state ! i = 0"
    by (rule exI [of _ 2]) (simp add: mc)
  have two: "(1 :: u32) < 2" by simp
  from handle_page_fault_copy_on_write [OF slot dir ent _ _ _ cnt free, of 2,
         unfolded if_P [OF two]]
  obtain s' k where r: "handle_page_fault example_cfg 0 2 forked_state = Some (True, s')"
      "k < length (mapcounts forked_state)" "mapcounts forked_state ! k = 0"
      "mapcounts s' = (mapcounts forked_state)[unat (pte_pfn ?e) := 2 - 1, k := 1]"
      "pte_of example_cfg s' (ptbr s') 0
         = Some \<lparr>pte_valid = True, pte_rw = pte_private ?e, pte_pfn = of_nat k, pte_private = 0\<rparr>"
      "\<forall>i<length (tlb forked_state). tlb s' ! i =
         (if tlb_valid (tlb forked_state ! i) \<and> tlb_vpn (tlb forked_state ! i) = 0
          then (tlb forked_state ! i)\<lparr>tlb_pfn := of_nat k, tlb_rw := 2\<rparr>
          else tlb forked_state ! i)"
    by (auto simp: mc)
  have "k = 0 \<or> k = 1 \<or> k = 2" using r(2) by (simp add: mc) arith
  then have k: "k = 2" using r(3) by (auto simp: mc)
  have t: "tlb s' ! 0 = \<lparr>tlb_valid = True, tlb_rw = 2, tlb_vpn = 0, tlb_pfn = 2\<rparr>"
    using r(6) [rule_format, of 0] by (simp add: k example_defs)
  show ?thesis using slot pte cnt r(1,4,5) t by (simp add: k mc)
qed

section \<open>Isolation of the other process\<close>

text \<open>
  C9. When the running process handles a fault on \<open>vpn\<close>, the entry for \<open>vpn\<close> of another
  process, held in a directory of its own as after a fork, is the same afterwards: frame,
  rights and backup. When the count of the faulting entry's frame is 1, no count changes,
  so no frame is allocated.
\<close>

theorem handle_page_fault_other_process_unaffected:
  assumes run: "handle_page_fault cfg vpn rw s = Some (r, s')"
    and mine: "ptbr_slot s (vpn1_of cfg vpn) = Some (Some a)"
              "pte_of cfg s (ptbr s) vpn = Some e"
    and other: "q \<noteq> ptbr s" "nth_opt (procs s) q = Some pq"
               "nth_opt (outer_ptes (pagetable pq)) (vpn1_of cfg vpn) = Some (Some b)"
    and separate: "b \<noteq> a"
  shows "pte_of cfg s' q vpn = pte_of cfg s q vpn \<and>
         (nth_opt (mapcounts s) (unat (pte_pfn e)) = Some 1 \<longrightarrow> mapcounts s' = mapcounts s)"
proof -
  note fr = handle_page_fault_frame [OF run mine(1)]
  have one: "pte_of cfg s' q vpn = pte_of cfg s q vpn"
    using fr other separate by (simp add: pte_of_def)
  have two: "mapcounts s' = mapcounts s"
    if "nth_opt (mapcounts s) (unat (pte_pfn e)) = Some 1"
    using run mine(1)
  proof (cases rule: handle_page_fault_cases)
    case unchanged
    then show ?thesis by simp
  next
    case (in_place d e' c)
    then show ?thesis by simp
  next
    case (copy d e' c pfn s2)
    have "e' = e" using copy(1,2) mine by (auto simp: pte_of_def ptbr_slot_def split: Option.bind_splits)
    then show ?thesis using copy(6,7) that by simp
  qed
  show ?thesis using one two by blast
qed


theorem handle_page_fault_other_process_unaffected_witness:
  "(switch_process example_cfg 1 two_pages_state \<bind> insert_tlb 0 1 0) = Some forked_state
   \<and> ptbr forked_state = 1
   \<and> pte_of example_cfg forked_state 1 0
       = Some \<lparr>pte_valid = True, pte_rw = 1, pte_pfn = 0, pte_private = 3\<rparr>
   \<and> pte_of example_cfg forked_state 0 0
       = Some \<lparr>pte_valid = True, pte_rw = 1, pte_pfn = 0, pte_private = 3\<rparr>
   \<and> (\<exists>s'. handle_page_fault example_cfg 0 2 forked_state = Some (True, s')
          \<and> pte_of example_cfg s' 0 0
              = Some \<lparr>pte_valid = True, pte_rw = 1, pte_pfn = 0, pte_private = 3\<rparr>)
   \<and> ptbr parent_resumed_state = 0
   \<and> nth_opt (mapcounts parent_resumed_state) 0 = Some 1
   \<and> (\<exists>s'. handle_page_fault example_cfg 0 2 parent_resumed_state = Some (True, s')
          \<and> mapcounts s' = mapcounts parent_resumed_state
          \<and> pte_of example_cfg s' 1 0
              = Some \<lparr>pte_valid = True, pte_rw = 3, pte_pfn = 2, pte_private = 0\<rparr>)"
proof -
  let ?e = "\<lparr>pte_valid = True, pte_rw = 1, pte_pfn = 0, pte_private = 3\<rparr>"
  have fork: "(switch_process example_cfg 1 two_pages_state \<bind> insert_tlb 0 1 0)
                = Some forked_state"
    by (simp add: eval_defs example_defs Let_def)
  obtain s1 where run1: "handle_page_fault example_cfg 0 2 forked_state = Some (True, s1)"
    by (simp add: eval_defs example_defs)
  have a1: "ptbr_slot forked_state (vpn1_of example_cfg 0) = Some (Some 1)"
    and e1: "pte_of example_cfg forked_state (ptbr forked_state) 0 = Some ?e"
    and q1: "0 \<noteq> ptbr forked_state"
       "nth_opt (procs forked_state) 0
          = Some \<lparr>pid = 0, pagetable = \<lparr>outer_ptes = [Some 0, None]\<rparr>\<rparr>"
       "nth_opt (outer_ptes (pagetable \<lparr>pid = 0, pagetable = \<lparr>outer_ptes = [Some 0, None]\<rparr>\<rparr>))
          (vpn1_of example_cfg 0) = Some (Some 0)"
    and o1: "pte_of example_cfg forked_state 0 0 = Some ?e"
    by (simp_all add: eval_defs example_defs)
  have sep1: "(0 :: nat) \<noteq> 1" by simp
  note r1 = handle_page_fault_other_process_unaffected [OF run1 a1 e1 q1 sep1]
  obtain s2 where run2:
      "handle_page_fault example_cfg 0 2 parent_resumed_state = Some (True, s2)"
    by (simp add: eval_defs example_defs)
  have a2: "ptbr_slot parent_resumed_state (vpn1_of example_cfg 0) = Some (Some 0)"
    and e2: "pte_of example_cfg parent_resumed_state (ptbr parent_resumed_state) 0 = Some ?e"
    and q2: "1 \<noteq> ptbr parent_resumed_state"
       "nth_opt (procs parent_resumed_state) 1
          = Some \<lparr>pid = 1, pagetable = \<lparr>outer_ptes = [Some 1, None]\<rparr>\<rparr>"
       "nth_opt (outer_ptes (pagetable \<lparr>pid = 1, pagetable = \<lparr>outer_ptes = [Some 1, None]\<rparr>\<rparr>))
          (vpn1_of example_cfg 0) = Some (Some 1)"
    and o2: "pte_of example_cfg parent_resumed_state 1 0
               = Some \<lparr>pte_valid = True, pte_rw = 3, pte_pfn = 2, pte_private = 0\<rparr>"
    and c2: "nth_opt (mapcounts parent_resumed_state) 0 = Some 1"
    and p1: "ptbr forked_state = 1" and p2: "ptbr parent_resumed_state = 0"
    by (simp_all add: eval_defs example_defs)
  have sep2: "(1 :: nat) \<noteq> 0" by simp
  note r2 = handle_page_fault_other_process_unaffected [OF run2 a2 e2 q2 sep2]
  show ?thesis
    using fork run1 r1 o1 e1 run2 r2 o2 c2 p1 p2 by simp
qed

section \<open>Fork\<close>

text \<open>
  C4. A switch to a pid that is not on the ready list forks. Every entry of a directory
  of the current process whose rights meet \<^verbatim>\<open>ACCESS_WRITE\<close> gets its rights saved in
  the backup and is set to \<^verbatim>\<open>ACCESS_READ\<close>, in the parent's directory, and the child's
  directory holds the same entries. The directories of the child are blocks that did
  not exist before the fork and are pairwise different, so the child shares no directory
  with any process. The count of a frame grows by the number of valid entries of the
  child that map it: one increment for each valid entry. The hypotheses say that the
  directories of the current process are live and pairwise different blocks and that
  its valid entries map existing frames.
\<close>

theorem switch_process_fork:
  assumes nf: "find_process (procs s) (processes s) p = Some None"
    and cur: "nth_opt (procs s) (current s) = Some parent"
    and live: "\<forall>a\<in>set (dir_addrs (outer_ptes (pagetable parent))). get_dir s a \<noteq> None"
    and own: "distinct (dir_addrs (outer_ptes (pagetable parent)))"
    and range: "\<forall>e\<in>set (pagetable_entries (dirs s) (outer_ptes (pagetable parent))).
                  pte_valid e \<longrightarrow> unat (pte_pfn e) < length (mapcounts s)"
  shows "\<exists>s1 child.
           fork cfg p s = Some (length (procs s), s1) \<and>
           switch_process cfg p s =
             Some (s1\<lparr>processes := list_add_tail (current s) (processes s),
                      current := length (procs s), ptbr := length (procs s),
                      tlb := map (\<lambda>e. e\<lparr>tlb_valid := False\<rparr>) (tlb s1)\<rparr>) \<and>
           nth_opt (procs s1) (length (procs s)) = Some child \<and> pid child = p \<and>
           nth_opt (procs s1) (current s) = Some parent \<and>
           list_all2 (copied cfg (dirs s) (dirs s1))
             (outer_ptes (pagetable parent)) (outer_ptes (pagetable child)) \<and>
           distinct (dir_addrs (outer_ptes (pagetable child))) \<and>
           (\<forall>e. pte_rw e AND ACCESS_WRITE cfg \<noteq> 0 \<longrightarrow>
                cow_protect cfg e = e\<lparr>pte_private := pte_rw e, pte_rw := ACCESS_READ cfg\<rparr>) \<and>
           (\<forall>e. pte_rw e AND ACCESS_WRITE cfg = 0 \<longrightarrow> cow_protect cfg e = e) \<and>
           length (mapcounts s1) = length (mapcounts s) \<and>
           (\<forall>f<length (mapcounts s).
              mapcounts s1 ! f = mapcounts s ! f +
                of_nat (nr_mappings
                  (pagetable_entries (dirs s1) (outer_ptes (pagetable child))) f))"
proof -
  let ?slots = "outer_ptes (pagetable parent)"
  have c: "current s < length (procs s)" "procs s ! current s = parent"
    using cur by (auto simp: nth_opt_def split: if_splits)
  have l: "\<forall>a\<in>set (dir_addrs ?slots). a < length (dirs s) \<and> dirs s ! a \<noteq> None"
    using live by (auto simp: get_dir_def split: if_splits)
  from copy_pagetable_spec [OF l own, of cfg]
  obtain new ds' where cp: "copy_pagetable cfg ?slots (dirs s) = Some (new, ds')"
      "list_all2 (copied cfg (dirs s) ds') ?slots new" "distinct (dir_addrs new)"
    by blast
  have l2: "\<forall>a\<in>set (dir_addrs ?slots). a < length (dirs s)" using l by simp
  note ce = copied_entries [OF cp(2) range l2]
  from count_pagetable_total [OF ce [THEN conjunct1] ce [THEN conjunct2]]
  obtain mc' where mc: "count_pagetable new ds' (mapcounts s) = Some mc'" by blast
  note cnt = count_pagetable_counts [OF mc]
  define child where "child = \<lparr>pid = p, pagetable = \<lparr>outer_ptes = new\<rparr>\<rparr>"
  define s1 where "s1 = s\<lparr>procs := procs s @ [child], dirs := ds', mapcounts := mc'\<rparr>"
  have fk: "fork cfg p s = Some (length (procs s), s1)"
    using cur cp(1) mc by (simp add: fork_def s1_def child_def)
  have sw: "switch_process cfg p s =
             Some (s1\<lparr>processes := list_add_tail (current s) (processes s),
                      current := length (procs s), ptbr := length (procs s),
                      tlb := map (\<lambda>e. e\<lparr>tlb_valid := False\<rparr>) (tlb s1)\<rparr>)"
    using nf fk by (simp add: switch_process_def s1_def)
  show ?thesis
    apply (rule exI [of _ s1])
    apply (rule exI [of _ child])
    apply (rule conjI, rule fk)
    apply (rule conjI, rule sw)
    using c cp(2,3) cnt
    by (simp add: s1_def child_def nth_opt_def nth_append cow_protect_def)
qed

theorem switch_process_fork_witness:
  "find_process (procs two_pages_state) (processes two_pages_state) 1 = Some None
   \<and> nth_opt (procs two_pages_state) (current two_pages_state)
       = Some \<lparr>pid = 0, pagetable = \<lparr>outer_ptes = [Some 0, None]\<rparr>\<rparr>
   \<and> (\<exists>s'. switch_process example_cfg 1 two_pages_state = Some s'
          \<and> procs s' = [\<lparr>pid = 0, pagetable = \<lparr>outer_ptes = [Some 0, None]\<rparr>\<rparr>,
                        \<lparr>pid = 1, pagetable = \<lparr>outer_ptes = [Some 1, None]\<rparr>\<rparr>]
          \<and> list_all2 (copied example_cfg (dirs two_pages_state) (dirs s'))
                [Some 0, None] [Some 1, None]
          \<and> dirs s' ! 0 = dirs s' ! 1
          \<and> dirs s' ! 1
               = Some [\<lparr>pte_valid = True, pte_rw = 1, pte_pfn = 0, pte_private = 3\<rparr>,
                       \<lparr>pte_valid = True, pte_rw = 1, pte_pfn = 1, pte_private = 3\<rparr>]
          \<and> mapcounts two_pages_state = [1, 1, 0] \<and> mapcounts s' = [2, 2, 0])"
proof -
  let ?parent = "\<lparr>pid = 0, pagetable = \<lparr>outer_ptes = [Some 0, None]\<rparr>\<rparr>"
  have nf: "find_process (procs two_pages_state) (processes two_pages_state) 1 = Some None"
    by (simp add: eval_defs example_defs)
  have cur: "nth_opt (procs two_pages_state) (current two_pages_state) = Some ?parent"
    by (simp add: eval_defs example_defs)
  have live: "\<forall>a\<in>set (dir_addrs (outer_ptes (pagetable ?parent))).
                get_dir two_pages_state a \<noteq> None"
    by (simp add: eval_defs example_defs)
  have own: "distinct (dir_addrs (outer_ptes (pagetable ?parent)))"
    by simp
  have range: "\<forall>e\<in>set (pagetable_entries (dirs two_pages_state)
                            (outer_ptes (pagetable ?parent))).
                 pte_valid e \<longrightarrow> unat (pte_pfn e) < length (mapcounts two_pages_state)"
    by (simp add: example_defs)
  from switch_process_fork [OF nf cur live own range, of example_cfg]
  obtain s1 child where r:
      "fork example_cfg 1 two_pages_state = Some (length (procs two_pages_state), s1)"
      "nth_opt (procs s1) (length (procs two_pages_state)) = Some child"
      "list_all2 (copied example_cfg (dirs two_pages_state) (dirs s1))
         (outer_ptes (pagetable ?parent)) (outer_ptes (pagetable child))"
    by blast
  have ev: "fork example_cfg 1 two_pages_state =
      Some (1, two_pages_state
        \<lparr>procs := [?parent, \<lparr>pid = 1, pagetable = \<lparr>outer_ptes = [Some 1, None]\<rparr>\<rparr>],
         dirs := [Some [\<lparr>pte_valid = True, pte_rw = 1, pte_pfn = 0, pte_private = 3\<rparr>,
                        \<lparr>pte_valid = True, pte_rw = 1, pte_pfn = 1, pte_private = 3\<rparr>],
                  Some [\<lparr>pte_valid = True, pte_rw = 1, pte_pfn = 0, pte_private = 3\<rparr>,
                        \<lparr>pte_valid = True, pte_rw = 1, pte_pfn = 1, pte_private = 3\<rparr>]],
         mapcounts := [2, 2, 0]\<rparr>)"
    by (simp add: eval_defs example_defs Let_def)
  have s1: "s1 = two_pages_state
        \<lparr>procs := [?parent, \<lparr>pid = 1, pagetable = \<lparr>outer_ptes = [Some 1, None]\<rparr>\<rparr>],
         dirs := [Some [\<lparr>pte_valid = True, pte_rw = 1, pte_pfn = 0, pte_private = 3\<rparr>,
                        \<lparr>pte_valid = True, pte_rw = 1, pte_pfn = 1, pte_private = 3\<rparr>],
                  Some [\<lparr>pte_valid = True, pte_rw = 1, pte_pfn = 0, pte_private = 3\<rparr>,
                        \<lparr>pte_valid = True, pte_rw = 1, pte_pfn = 1, pte_private = 3\<rparr>]],
         mapcounts := [2, 2, 0]\<rparr>"
    using r(1) unfolding ev
    by (simp only: option.inject prod.inject)
  have sw: "switch_process example_cfg 1 two_pages_state =
      Some (s1\<lparr>processes := [0], current := 1, ptbr := 1,
               tlb := map (\<lambda>e. e\<lparr>tlb_valid := False\<rparr>) (tlb s1)\<rparr>)"
    using nf ev by (simp add: switch_process_def list_add_tail_def s1) (simp add: example_defs)
  have ch: "child = \<lparr>pid = 1, pagetable = \<lparr>outer_ptes = [Some 1, None]\<rparr>\<rparr>"
    using r(2) by (simp add: s1 nth_opt_def example_defs)
  have la: "list_all2 (copied example_cfg (dirs two_pages_state) (dirs s1))
              [Some 0, None] [Some 1, None]"
    using r(3) by (simp add: ch)
  have mc: "mapcounts two_pages_state = [1, 1, 0]" by (simp add: example_defs)
  show ?thesis
    apply (intro conjI nf cur exI [of _ "s1\<lparr>processes := [0], current := 1, ptbr := 1,
               tlb := map (\<lambda>e. e\<lparr>tlb_valid := False\<rparr>) (tlb s1)\<rparr>"] sw)
    using la mc by (simp_all add: s1)
qed

section \<open>TLB consistency\<close>

lemma translate_pte_of:
  "translate cfg vpn r s =
     (case pte_of cfg s (ptbr s) vpn of
        Some e \<Rightarrow> if pte_valid e \<and> pte_rw e AND r = r then Some (pte_pfn e) else None
      | None \<Rightarrow> None)"
  by (auto simp: translate_def pte_of_def ptbr_slot_def split: option.splits Option.bind_splits)

lemma and_subset_trans:
  fixes p r t :: u32
  assumes "p AND t = t" "r AND t = r"
  shows "p AND r = r"
proof -
  have "p AND r = p AND (r AND t)" using assms(2) by simp
  also have "\<dots> = r AND (p AND t)" by (simp add: ac_simps)
  also have "\<dots> = r" using assms by simp
  finally show ?thesis .
qed

lemma tlb_backed_consistent:
  assumes "tlb_backed cfg s"
  shows "tlb_consistent cfg s"
  unfolding tlb_consistent_def
proof (intro ballI impI allI)
  fix t r
  assume t: "t \<in> set (tlb s)" "tlb_valid t" and r: "r AND tlb_rw t = r"
  from assms t obtain e where e: "pte_of cfg s (ptbr s) (tlb_vpn t) = Some e" "pte_valid e"
      "pte_pfn e = tlb_pfn t" "pte_rw e AND tlb_rw t = tlb_rw t"
    unfolding tlb_backed_def by blast
  have "pte_rw e AND r = r" using e(4) r by (rule and_subset_trans)
  then show "translate cfg (tlb_vpn t) r s = Some (tlb_pfn t)"
    using e by (simp add: translate_pte_of)
qed

lemma vpn_split_inject:
  assumes "vpn1_of cfg v = vpn1_of cfg w" "vpn2_of cfg v = vpn2_of cfg w"
  shows "v = w"
proof -
  let ?n = "2 ^ PTES_PER_PAGE_SHIFT cfg :: nat"
  have v: "unat v = vpn1_of cfg v * ?n + vpn2_of cfg v"
    unfolding vpn1_of_def vpn2_of_def by (rule div_mult_mod_eq [symmetric])
  have w: "unat w = vpn1_of cfg w * ?n + vpn2_of cfg w"
    unfolding vpn1_of_def vpn2_of_def by (rule div_mult_mod_eq [symmetric])
  have "unat v = unat w" by (simp only: v w assms)
  then show ?thesis by (simp only: word_unat_eq_iff)
qed

lemma dir_addrs_all_None: "list_all (\<lambda>slot. slot = None) slots \<Longrightarrow> dir_addrs slots = []"
  by (induction slots rule: dir_addrs.induct) auto

lemma nth_Some_dir_addrs:
  "i < length slots \<Longrightarrow> slots ! i = Some a \<Longrightarrow> a \<in> set (dir_addrs slots)"
  using Some_in_slots [of a slots] nth_mem [of i slots] by simp

lemma dir_addrs_distinct_nth:
  assumes "distinct (dir_addrs slots)" "i < length slots" "j < length slots"
    and "slots ! i = Some a" "slots ! j = Some a"
  shows "i = j"
  using assms
proof (induction slots arbitrary: i j)
  case Nil
  then show ?case by simp
next
  case (Cons x slots)
  have tl: "distinct (dir_addrs slots)" using Cons.prems(1) by (cases x) simp_all
  show ?case
  proof (cases i)
    case i0: 0
    show ?thesis
    proof (cases j)
      case 0
      then show ?thesis using i0 by simp
    next
      case (Suc j')
      have x: "x = Some a" using i0 Cons.prems(4) by simp
      have "a \<in> set (dir_addrs slots)"
        using nth_Some_dir_addrs [of j' slots a] Suc Cons.prems(3,5) by simp
      then show ?thesis using x Cons.prems(1) by simp
    qed
  next
    case iS: (Suc i')
    show ?thesis
    proof (cases j)
      case 0
      have x: "x = Some a" using 0 Cons.prems(5) by simp
      have "a \<in> set (dir_addrs slots)"
        using nth_Some_dir_addrs [of i' slots a] iS Cons.prems(2,4) by simp
      then show ?thesis using x Cons.prems(1) by simp
    next
      case (Suc j')
      have "i' = j'"
        using Cons.IH [OF tl, of i' j'] iS Suc Cons.prems(2-5) by simp
      then show ?thesis using iS Suc by simp
    qed
  qed
qed


lemma pte_of_cong:
  assumes "procs s' = procs s" "dirs s' = dirs s"
  shows "pte_of cfg s' q v = pte_of cfg s q v"
  unfolding pte_of_def get_dir_def assms by (rule refl)

lemma tlb_backed_cong:
  assumes "procs s' = procs s" "dirs s' = dirs s" "ptbr s' = ptbr s"
    and "set (tlb s') \<subseteq> set (tlb s) \<union> {t. \<not> tlb_valid t}"
    and "tlb_backed cfg s"
  shows "tlb_backed cfg s'"
  unfolding tlb_backed_def
proof (intro ballI impI)
  fix t assume t: "t \<in> set (tlb s')" "tlb_valid t"
  then have "t \<in> set (tlb s)" using assms(4) by auto
  with assms(5) t(2) obtain e where "pte_of cfg s (ptbr s) (tlb_vpn t) = Some e"
      "pte_valid e" "pte_pfn e = tlb_pfn t" "pte_rw e AND tlb_rw t = tlb_rw t"
    unfolding tlb_backed_def by blast
  then show "\<exists>e. pte_of cfg s' (ptbr s') (tlb_vpn t) = Some e \<and> pte_valid e \<and>
             pte_pfn e = tlb_pfn t \<and> pte_rw e AND tlb_rw t = tlb_rw t"
    unfolding pte_of_cong [OF assms(1,2)] assms(3) by blast
qed

lemma tlb_backed_empty: "list_all (\<lambda>t. \<not> tlb_valid t) (tlb s) \<Longrightarrow> tlb_backed cfg s"
  by (simp add: tlb_backed_def list_all_iff)

lemma translate_SomeD:
  assumes "translate cfg vpn rw s = Some pfn"
  obtains e where "pte_of cfg s (ptbr s) vpn = Some e" "pte_valid e"
      "pte_pfn e = pfn" "pte_rw e AND rw = rw"
proof (cases "pte_of cfg s (ptbr s) vpn")
  case None
  then show ?thesis using assms by (simp add: translate_pte_of)
next
  case (Some e)
  then have "pte_valid e \<and> pte_pfn e = pfn \<and> pte_rw e AND rw = rw"
    using assms by (simp add: translate_pte_of split: if_splits)
  then show ?thesis using that Some by blast
qed

lemma insert_tlb_SomeD:
  assumes "insert_tlb vpn rw pfn s = Some s'"
  obtains i where "s' = s\<lparr>tlb := (tlb s)[i :=
      \<lparr>tlb_valid = True, tlb_rw = rw, tlb_vpn = vpn, tlb_pfn = pfn\<rparr>]\<rparr>"
proof (cases "first_invalid (tlb s)")
  case None
  then show ?thesis using assms by (simp add: insert_tlb_def)
next
  case (Some fi)
  have "s' = s\<lparr>tlb := (tlb s)[(case first_match (tlb s) vpn of Some i \<Rightarrow> i | None \<Rightarrow> fi) :=
      \<lparr>tlb_valid = True, tlb_rw = rw, tlb_vpn = vpn, tlb_pfn = pfn\<rparr>]\<rparr>"
    using assms Some by (simp add: insert_tlb_def Let_def)
  then show ?thesis by (rule that)
qed

lemma tlb_backed_insert:
  assumes "tlb_backed cfg s" "translate cfg vpn rw s = Some pfn"
    and "insert_tlb vpn rw pfn s = Some s'"
  shows "tlb_backed cfg s'"
proof -
  let ?new = "\<lparr>tlb_valid = True, tlb_rw = rw, tlb_vpn = vpn, tlb_pfn = pfn\<rparr>"
  from assms(3) obtain i where s': "s' = s\<lparr>tlb := (tlb s)[i := ?new]\<rparr>"
    by (rule insert_tlb_SomeD)
  from assms(2) obtain e where e: "pte_of cfg s (ptbr s) vpn = Some e" "pte_valid e"
      "pte_pfn e = pfn" "pte_rw e AND rw = rw"
    by (rule translate_SomeD)
  have eq: "procs s' = procs s" "dirs s' = dirs s" "ptbr s' = ptbr s"
    by (simp_all add: s')
  have tl: "tlb s' = (tlb s)[i := ?new]" by (simp add: s')
  show ?thesis
    unfolding tlb_backed_def
  proof (intro ballI impI)
    fix t assume t: "t \<in> set (tlb s')" "tlb_valid t"
    have "t \<in> insert ?new (set (tlb s))"
      using t(1) set_update_subset_insert [of "tlb s" i ?new] unfolding tl by (rule subsetD [rotated])
    then have "t = ?new \<or> t \<in> set (tlb s)" by simp
    then show "\<exists>e. pte_of cfg s' (ptbr s') (tlb_vpn t) = Some e \<and> pte_valid e \<and>
             pte_pfn e = tlb_pfn t \<and> pte_rw e AND tlb_rw t = tlb_rw t"
      unfolding pte_of_cong [OF eq(1,2)] eq(3)
    proof
      assume "t = ?new"
      then show "\<exists>e. pte_of cfg s (ptbr s) (tlb_vpn t) = Some e \<and> pte_valid e \<and>
             pte_pfn e = tlb_pfn t \<and> pte_rw e AND tlb_rw t = tlb_rw t"
        using e by simp
    next
      assume "t \<in> set (tlb s)"
      with assms(1) t(2)
      show "\<exists>e. pte_of cfg s (ptbr s) (tlb_vpn t) = Some e \<and> pte_valid e \<and>
             pte_pfn e = tlb_pfn t \<and> pte_rw e AND tlb_rw t = tlb_rw t"
        unfolding tlb_backed_def by blast
    qed
  qed
qed

lemma copy_pagetable_fresh:
  "copy_pagetable cfg slots ds = Some (new, ds') \<Longrightarrow>
     length ds \<le> length ds' \<and>
     (\<forall>b\<in>set (dir_addrs new). length ds \<le> b \<and> b < length ds') \<and>
     distinct (dir_addrs new)"
proof (induction cfg slots ds arbitrary: new ds' rule: copy_pagetable.induct)
  case (1 cfg ds)
  then show ?case by simp
next
  case (2 cfg slots ds)
  from "2.prems" obtain new1 where r: "copy_pagetable cfg slots ds = Some (new1, ds')"
      "new = None # new1"
    by (auto split: Option.bind_splits)
  from "2.IH" [OF r(1)] show ?case by (simp add: r(2))
next
  case (3 cfg a slots ds)
  from "3.prems" obtain d new1 where r: "(if a < length ds then ds ! a else None) = Some d"
      "copy_pagetable cfg slots (ds[a := Some (map (cow_protect cfg) d)]
          @ [Some (map (cow_protect cfg) d)]) = Some (new1, ds')"
      "new = Some (length ds) # new1"
    by (auto simp: Let_def split: Option.bind_splits)
  from "3.IH" [OF r(1) refl r(2)]
  have ih: "Suc (length ds) \<le> length ds'"
      "\<forall>b\<in>set (dir_addrs new1). Suc (length ds) \<le> b \<and> b < length ds'"
      "distinct (dir_addrs new1)"
    by simp_all
  have "length ds \<notin> set (dir_addrs new1)" using ih(2) by auto
  then show ?case using ih by (auto simp: r(3))
qed

lemma switch_process_SomeD:
  assumes "switch_process cfg p s = Some s'"
  obtains (found) "procs s' = procs s" "dirs s' = dirs s"
      "list_all (\<lambda>t. \<not> tlb_valid t) (tlb s')"
  | (forked) cur new ds' where "nth_opt (procs s) (current s) = Some cur"
      "copy_pagetable cfg (outer_ptes (pagetable cur)) (dirs s) = Some (new, ds')"
      "procs s' = procs s @ [\<lparr>pid = p, pagetable = \<lparr>outer_ptes = new\<rparr>\<rparr>]"
      "dirs s' = ds'" "list_all (\<lambda>t. \<not> tlb_valid t) (tlb s')"
proof -
  from assms obtain fnd where f: "find_process (procs s) (processes s) p = Some fnd"
    by (cases "find_process (procs s) (processes s) p") (simp_all add: switch_process_def)
  show thesis
  proof (cases fnd)
    case (Some pos)
    have "procs s' = procs s \<and> dirs s' = dirs s \<and> list_all (\<lambda>t. \<not> tlb_valid t) (tlb s')"
      using assms f Some
      by (auto simp: switch_process_def list_all_iff split: Option.bind_splits)
    then show ?thesis using found by blast
  next
    case None
    from assms f None obtain nxt s1 where fk: "fork cfg p s = Some (nxt, s1)"
      by (cases "fork cfg p s") (auto simp: switch_process_def)
    then obtain cur new ds' mc where k: "nth_opt (procs s) (current s) = Some cur"
        "copy_pagetable cfg (outer_ptes (pagetable cur)) (dirs s) = Some (new, ds')"
        "procs s1 = procs s @ [\<lparr>pid = p, pagetable = \<lparr>outer_ptes = new\<rparr>\<rparr>]"
        "dirs s1 = ds'"
      by (auto simp: fork_def split: Option.bind_splits)
    have "procs s' = procs s1 \<and> dirs s' = dirs s1 \<and> list_all (\<lambda>t. \<not> tlb_valid t) (tlb s')"
      using assms f None fk
      by (auto simp: switch_process_def list_all_iff split: Option.bind_splits)
    then show ?thesis using forked [OF k(1,2)] k(3,4) by simp
  qed
qed

lemma tables_ok_switch:
  assumes "tables_ok s" "switch_process cfg p s = Some s'"
  shows "tables_ok s'"
  using assms(2)
proof (cases rule: switch_process_SomeD)
  case found
  then show ?thesis using assms(1) by (simp add: tables_ok_def)
next
  case (forked cur new ds')
  note fr = copy_pagetable_fresh [OF forked(2)]
  show ?thesis
    unfolding tables_ok_def
  proof (intro ballI conjI)
    fix q assume "q \<in> set (procs s')"
    then have q: "q \<in> set (procs s) \<or> q = \<lparr>pid = p, pagetable = \<lparr>outer_ptes = new\<rparr>\<rparr>"
      by (auto simp: forked(3))
    show "distinct (dir_addrs (outer_ptes (pagetable q)))"
      using q assms(1) fr by (auto simp: tables_ok_def)
    fix a assume a: "a \<in> set (dir_addrs (outer_ptes (pagetable q)))"
    from q show "a < length (dirs s')"
    proof
      assume "q \<in> set (procs s)"
      then have "a < length (dirs s)" using assms(1) a by (auto simp: tables_ok_def)
      then show ?thesis using fr by (simp add: forked(4))
    next
      assume "q = \<lparr>pid = p, pagetable = \<lparr>outer_ptes = new\<rparr>\<rparr>"
      then show ?thesis using a fr by (simp add: forked(4))
    qed
  qed
qed

lemma tlb_backed_switch:
  assumes "switch_process cfg p s = Some s'"
  shows "tlb_backed cfg s'"
  using assms by (cases rule: switch_process_SomeD) (simp_all add: tlb_backed_empty)


lemma pte_of_SomeD:
  assumes "pte_of cfg s q v = Some e"
  obtains p a d where "nth_opt (procs s) q = Some p"
    "nth_opt (outer_ptes (pagetable p)) (vpn1_of cfg v) = Some (Some a)"
    "get_dir s a = Some d" "nth_opt d (vpn2_of cfg v) = Some e"
  using assms unfolding pte_of_def by (auto split: Option.bind_splits)

lemma pte_of_via:
  assumes "nth_opt (procs s) q = Some p"
    and "nth_opt (outer_ptes (pagetable p)) (vpn1_of cfg v) = Some (Some a)"
  shows "pte_of cfg s q v = get_dir s a \<bind> (\<lambda>d. nth_opt d (vpn2_of cfg v))"
  using assms by (simp add: pte_of_def)

lemma nth_opt_SomeD: "nth_opt xs i = Some x \<Longrightarrow> i < length xs \<and> xs ! i = x"
  by (simp add: nth_opt_def split: if_splits)

lemma get_dir_SomeD: "get_dir s a = Some d \<Longrightarrow> a < length (dirs s) \<and> dirs s ! a = Some d"
  by (simp add: get_dir_def split: if_splits)

text \<open>A write to one entry of a directory of the page table of process q.\<close>

lemma pte_of_entry_update:
  assumes p: "nth_opt (procs s) q = Some p"
    and dist: "distinct (dir_addrs (outer_ptes (pagetable p)))"
    and slot: "nth_opt (outer_ptes (pagetable p)) (vpn1_of cfg vpn) = Some (Some a)"
    and dir: "get_dir s a = Some d"
    and s': "procs s' = procs s" "dirs s' = (dirs s)[a := Some (d[vpn2_of cfg vpn := x])]"
    and ne: "v \<noteq> vpn"
  shows "pte_of cfg s' q v = pte_of cfg s q v"
proof -
  let ?slots = "outer_ptes (pagetable p)"
  have p': "nth_opt (procs s') q = Some p" using p s'(1) by simp
  have a: "a < length (dirs s)" using get_dir_SomeD [OF dir] by simp
  show ?thesis
  proof (cases "nth_opt ?slots (vpn1_of cfg v)")
    case None
    then show ?thesis using p p' by (simp add: pte_of_def)
  next
    case (Some sl)
    show ?thesis
    proof (cases sl)
      case None
      then show ?thesis using p p' Some by (simp add: pte_of_def)
    next
      case (Some a')
      note sl = \<open>nth_opt ?slots (vpn1_of cfg v) = Some sl\<close> [unfolded Some]
      show ?thesis
      proof (cases "a' = a")
        case False
        then have "get_dir s' a' = get_dir s a'"
          by (simp add: get_dir_def s'(2))
        then show ?thesis
          by (simp add: pte_of_via [OF p sl] pte_of_via [OF p' sl])
      next
        case True
        have "vpn1_of cfg v = vpn1_of cfg vpn"
          using dir_addrs_distinct_nth [OF dist, of "vpn1_of cfg v" "vpn1_of cfg vpn" a]
            nth_opt_SomeD [OF sl] nth_opt_SomeD [OF slot] True by simp
        then have j: "vpn2_of cfg v \<noteq> vpn2_of cfg vpn"
          using vpn_split_inject [of cfg v vpn] ne by blast
        have "get_dir s' a = Some (d[vpn2_of cfg vpn := x])"
          using a by (simp add: get_dir_def s'(2))
        then show ?thesis using j dir True
          by (simp add: pte_of_via [OF p sl] pte_of_via [OF p' sl] nth_opt_def)
      qed
    qed
  qed
qed

lemma pte_of_entry_written:
  assumes p: "nth_opt (procs s) q = Some p"
    and slot: "nth_opt (outer_ptes (pagetable p)) (vpn1_of cfg vpn) = Some (Some a)"
    and dir: "get_dir s a = Some d" "vpn2_of cfg vpn < length d"
    and s': "procs s' = procs s" "dirs s' = (dirs s)[a := Some (d[vpn2_of cfg vpn := x])]"
  shows "pte_of cfg s' q vpn = Some x"
proof -
  have p': "nth_opt (procs s') q = Some p" using p s'(1) by simp
  have a: "a < length (dirs s)" using get_dir_SomeD [OF dir(1)] by simp
  have "get_dir s' a = Some (d[vpn2_of cfg vpn := x])"
    using a by (simp add: get_dir_def s'(2))
  then show ?thesis using dir(2) by (simp add: pte_of_via [OF p' slot] nth_opt_def)
qed

lemma dir_addrs_update_None:
  assumes "i < length slots" "slots ! i = None"
  shows "set (dir_addrs (slots[i := Some n])) = insert n (set (dir_addrs slots)) \<and>
         (distinct (dir_addrs slots) \<longrightarrow> n \<notin> set (dir_addrs slots) \<longrightarrow>
            distinct (dir_addrs (slots[i := Some n])))"
  using assms
proof (induction slots arbitrary: i)
  case Nil
  then show ?case by simp
next
  case (Cons x slots)
  show ?case
  proof (cases i)
    case 0
    then have "x = None" using Cons.prems by simp
    then show ?thesis using 0 by simp
  next
    case (Suc i')
    then have ih: "set (dir_addrs (slots[i' := Some n])) = insert n (set (dir_addrs slots)) \<and>
         (distinct (dir_addrs slots) \<longrightarrow> n \<notin> set (dir_addrs slots) \<longrightarrow>
            distinct (dir_addrs (slots[i' := Some n])))"
      using Cons.IH [of i'] Cons.prems by simp
    show ?thesis using ih Suc by (cases x) auto
  qed
qed

lemma alloc_page_cases:
  assumes run: "alloc_page cfg vpn rw s = Some (r, s')"
  obtains (full) "s' = s"
  | (new_dir) p where "nth_opt (procs s) (ptbr s) = Some p"
      "nth_opt (outer_ptes (pagetable p)) (vpn1_of cfg vpn) = Some None"
      "vpn2_of cfg vpn < NR_PTES_PER_PAGE cfg"
      "procs s' = (procs s)[ptbr s := p\<lparr>pagetable := (pagetable p)\<lparr>outer_ptes :=
                 (outer_ptes (pagetable p))[vpn1_of cfg vpn := Some (length (dirs s))]\<rparr>\<rparr>]"
      "dirs s' = dirs s @ [Some ((replicate (NR_PTES_PER_PAGE cfg) ((junk s)\<lparr>pte_valid := False\<rparr>))
                   [vpn2_of cfg vpn := \<lparr>pte_valid = True, pte_rw = rw,
                      pte_pfn = of_nat (find_free (mapcounts s)), pte_private = 0\<rparr>])]"
      "tlb s' = tlb s" "ptbr s' = ptbr s"
  | (old_dir) p a d where "nth_opt (procs s) (ptbr s) = Some p"
      "nth_opt (outer_ptes (pagetable p)) (vpn1_of cfg vpn) = Some (Some a)"
      "get_dir s a = Some d" "vpn2_of cfg vpn < length d"
      "procs s' = procs s"
      "dirs s' = (dirs s)[a := Some (d[vpn2_of cfg vpn := \<lparr>pte_valid = True, pte_rw = rw,
                      pte_pfn = of_nat (find_free (mapcounts s)), pte_private = 0\<rparr>])]"
      "tlb s' = tlb s" "ptbr s' = ptbr s"
proof (cases "find_free (mapcounts s) < length (mapcounts s)")
  case False
  then have "s' = s" using run alloc_page_full [OF False, of cfg vpn rw] by simp
  then show ?thesis by (rule full)
next
  case True
  let ?s1 = "s\<lparr>mapcounts := (mapcounts s)[find_free (mapcounts s) :=
               mapcounts s ! find_free (mapcounts s) + 1]\<rparr>"
  obtain slot where slot: "ptbr_slot s (vpn1_of cfg vpn) = Some slot"
    using run True by (cases "ptbr_slot s (vpn1_of cfg vpn)") (simp_all add: alloc_page_def Let_def)
  then obtain p where p: "nth_opt (procs s) (ptbr s) = Some p"
      "nth_opt (outer_ptes (pagetable p)) (vpn1_of cfg vpn) = Some slot"
    by (auto simp: ptbr_slot_def split: Option.bind_splits)
  show ?thesis
  proof (cases slot)
    case None
    have v2: "vpn2_of cfg vpn < NR_PTES_PER_PAGE cfg"
    proof (rule ccontr)
      assume "\<not> vpn2_of cfg vpn < NR_PTES_PER_PAGE cfg"
      then show False using run True slot None
        by (simp add: alloc_page_def Let_def new_directory_def set_pte_def get_dir_def)
    qed
    note res = alloc_page_new_dir [OF True p(1) p(2) [unfolded None] v2, of rw]
    have "s' = snd (the (alloc_page cfg vpn rw s))" using run by simp
    then show ?thesis
      using new_dir [OF p(1) p(2) [unfolded None] v2] unfolding res by simp
  next
    case (Some a)
    obtain d where d: "get_dir s a = Some d"
      using run True slot Some
      by (cases "get_dir s a") (simp_all add: alloc_page_def Let_def set_pte_def)
    have v2: "vpn2_of cfg vpn < length d"
    proof (rule ccontr)
      assume "\<not> vpn2_of cfg vpn < length d"
      then show False using run True slot Some d
        by (simp add: alloc_page_def Let_def set_pte_def)
    qed
    note res = alloc_page_old_dir [OF True slot [unfolded Some] d v2, of rw]
    have "s' = snd (the (alloc_page cfg vpn rw s))" using run by simp
    then show ?thesis
      using old_dir [OF p(1) p(2) [unfolded Some] d v2] unfolding res by simp
  qed
qed


lemma tlb_backedD:
  assumes "tlb_backed cfg s" "t \<in> set (tlb s)" "tlb_valid t"
  obtains e where "pte_of cfg s (ptbr s) (tlb_vpn t) = Some e" "pte_valid e"
    "pte_pfn e = tlb_pfn t" "pte_rw e AND tlb_rw t = tlb_rw t"
  using assms unfolding tlb_backed_def by blast

lemma tables_okD:
  assumes "tables_ok s" "nth_opt (procs s) q = Some p"
  shows "distinct (dir_addrs (outer_ptes (pagetable p)))"
    and "\<forall>a\<in>set (dir_addrs (outer_ptes (pagetable p))). a < length (dirs s)"
proof -
  have "p \<in> set (procs s)" using nth_opt_SomeD [OF assms(2)] nth_mem by blast
  then show "distinct (dir_addrs (outer_ptes (pagetable p)))"
    and "\<forall>a\<in>set (dir_addrs (outer_ptes (pagetable p))). a < length (dirs s)"
    using assms(1) by (auto simp: tables_ok_def)
qed

lemma uncachedD:
  "uncached vpn s \<Longrightarrow> t \<in> set (tlb s) \<Longrightarrow> tlb_valid t \<Longrightarrow> tlb_vpn t \<noteq> vpn"
  unfolding uncached_def list_all_iff by blast

lemma inv_alloc_uncached:
  assumes tb: "tlb_backed cfg s" and ok: "tables_ok s"
    and un: "uncached vpn s"
    and run: "alloc_page cfg vpn rw s = Some (r, s')"
  shows "tlb_backed cfg s' \<and> tables_ok s'"
  using run
proof (cases rule: alloc_page_cases)
  case full
  then show ?thesis using tb ok by simp
next
  case (old_dir p a d)
  note dist = tables_okD(1) [OF ok old_dir(1)]
  have "tlb_backed cfg s'"
    unfolding tlb_backed_def
  proof (intro ballI impI)
    fix t assume t: "t \<in> set (tlb s')" "tlb_valid t"
    then have ts: "t \<in> set (tlb s)" by (simp add: old_dir(7))
    from tlb_backedD [OF tb ts t(2)]
    obtain e where e: "pte_of cfg s (ptbr s) (tlb_vpn t) = Some e" "pte_valid e"
        "pte_pfn e = tlb_pfn t" "pte_rw e AND tlb_rw t = tlb_rw t" .
    have ne: "tlb_vpn t \<noteq> vpn" by (rule uncachedD [OF un ts t(2)])
    have "pte_of cfg s' (ptbr s) (tlb_vpn t) = pte_of cfg s (ptbr s) (tlb_vpn t)"
      by (rule pte_of_entry_update [OF old_dir(1) dist old_dir(2,3,5,6) ne])
    then show "\<exists>e. pte_of cfg s' (ptbr s') (tlb_vpn t) = Some e \<and> pte_valid e \<and>
             pte_pfn e = tlb_pfn t \<and> pte_rw e AND tlb_rw t = tlb_rw t"
      using e by (simp add: old_dir(8))
  qed
  moreover have "tables_ok s'"
    using ok by (simp add: tables_ok_def old_dir(5,6))
  ultimately show ?thesis ..
next
  case (new_dir p)
  let ?slots = "outer_ptes (pagetable p)"
  let ?i = "vpn1_of cfg vpn"
  let ?n = "length (dirs s)"
  let ?p' = "p\<lparr>pagetable := (pagetable p)\<lparr>outer_ptes := ?slots[?i := Some ?n]\<rparr>\<rparr>"
  note dist = tables_okD [OF ok new_dir(1)]
  have q: "ptbr s < length (procs s)" using nth_opt_SomeD [OF new_dir(1)] by simp
  have i: "?i < length ?slots" "?slots ! ?i = None"
    using nth_opt_SomeD [OF new_dir(2)] by simp_all
  have p': "nth_opt (procs s') (ptbr s) = Some ?p'"
    using q by (simp add: new_dir(4) nth_opt_def)
  have "tlb_backed cfg s'"
    unfolding tlb_backed_def
  proof (intro ballI impI)
    fix t assume t: "t \<in> set (tlb s')" "tlb_valid t"
    then have "t \<in> set (tlb s)" by (simp add: new_dir(6))
    from tlb_backedD [OF tb this t(2)]
    obtain e where e: "pte_of cfg s (ptbr s) (tlb_vpn t) = Some e" "pte_valid e"
        "pte_pfn e = tlb_pfn t" "pte_rw e AND tlb_rw t = tlb_rw t" .
    from pte_of_SomeD [OF e(1)]
    obtain p0 a0 d0 where k: "nth_opt (procs s) (ptbr s) = Some p0"
        "nth_opt (outer_ptes (pagetable p0)) (vpn1_of cfg (tlb_vpn t)) = Some (Some a0)"
        "get_dir s a0 = Some d0" "nth_opt d0 (vpn2_of cfg (tlb_vpn t)) = Some e" .
    have p0: "p0 = p" using k(1) new_dir(1) by simp
    have ne: "vpn1_of cfg (tlb_vpn t) \<noteq> ?i"
      using k(2) new_dir(2) by (auto simp: p0)
    have sl: "nth_opt (outer_ptes (pagetable ?p')) (vpn1_of cfg (tlb_vpn t)) = Some (Some a0)"
      using k(2) ne by (simp add: p0 nth_opt_def split: if_splits)
    have "get_dir s' a0 = Some d0"
      using get_dir_SomeD [OF k(3)] by (simp add: get_dir_def new_dir(5) nth_append)
    then have "pte_of cfg s' (ptbr s) (tlb_vpn t) = Some e"
      using k(4) by (simp add: pte_of_via [OF p' sl])
    then show "\<exists>e. pte_of cfg s' (ptbr s') (tlb_vpn t) = Some e \<and> pte_valid e \<and>
             pte_pfn e = tlb_pfn t \<and> pte_rw e AND tlb_rw t = tlb_rw t"
      using e by (simp add: new_dir(7))
  qed
  moreover have "tables_ok s'"
    unfolding tables_ok_def
  proof (intro ballI conjI)
    fix x assume "x \<in> set (procs s')"
    then have x: "x = ?p' \<or> x \<in> set (procs s)"
      using set_update_subset_insert [of "procs s" "ptbr s" ?p'] by (auto simp: new_dir(4))
    have fresh: "?n \<notin> set (dir_addrs ?slots)" using dist(2) by auto
    note upd = dir_addrs_update_None [OF i, of ?n]
    show "distinct (dir_addrs (outer_ptes (pagetable x)))"
      using x
    proof
      assume "x = ?p'"
      then show ?thesis using upd dist(1) fresh by simp
    next
      assume "x \<in> set (procs s)"
      then show ?thesis using ok by (simp add: tables_ok_def)
    qed
    fix a assume a: "a \<in> set (dir_addrs (outer_ptes (pagetable x)))"
    show "a < length (dirs s')"
      using x
    proof
      assume "x = ?p'"
      then have "a = ?n \<or> a \<in> set (dir_addrs ?slots)" using a upd by simp
      then show ?thesis using dist(2) by (auto simp: new_dir(5))
    next
      assume "x \<in> set (procs s)"
      then have "a < length (dirs s)" using ok a by (auto simp: tables_ok_def)
      then show ?thesis by (simp add: new_dir(5))
    qed
  qed
  ultimately show ?thesis ..
qed


lemma find_free_lt_mem: "find_free mc < length mc \<longleftrightarrow> 0 \<in> set mc"
  by (induction mc) auto

lemma inv_alloc:
  assumes tb: "tlb_backed cfg s" and ok: "tables_ok s"
    and pre: "uncached vpn s \<or> 0 \<notin> set (mapcounts s)"
    and run: "alloc_page cfg vpn rw s = Some (r, s')"
  shows "tlb_backed cfg s' \<and> tables_ok s'"
proof (cases "find_free (mapcounts s) < length (mapcounts s)")
  case False
  then have "s' = s" using run alloc_page_full [OF False, of cfg vpn rw] by simp
  then show ?thesis using tb ok by simp
next
  case True
  then have "0 \<in> set (mapcounts s)" by (simp add: find_free_lt_mem)
  then have "uncached vpn s" using pre by blast
  then show ?thesis by (rule inv_alloc_uncached [OF tb ok _ run])
qed

lemma ptbr_slot_SomeD:
  assumes "ptbr_slot s i = Some sl"
  obtains p where "nth_opt (procs s) (ptbr s) = Some p"
    "nth_opt (outer_ptes (pagetable p)) i = Some sl"
  using assms unfolding ptbr_slot_def by (auto split: Option.bind_splits)

lemma free_page_SomeD:
  assumes "free_page cfg vpn s = Some s'"
  obtains p a d e0 c where
    "nth_opt (procs s) (ptbr s) = Some p"
    "nth_opt (outer_ptes (pagetable p)) (vpn1_of cfg vpn) = Some (Some a)"
    "get_dir s a = Some d" "nth_opt d (vpn2_of cfg vpn) = Some e0"
    "nth_opt (mapcounts s) (unat (pte_pfn e0)) = Some c"
    "procs s' = procs s" "ptbr s' = ptbr s"
    "mapcounts s' = (mapcounts s)[unat (pte_pfn e0) := c - 1]"
    "dirs s' = (dirs s)[a :=
       (if list_all (\<lambda>e. \<not> pte_valid e) (d[vpn2_of cfg vpn := e0\<lparr>pte_valid := False\<rparr>])
        then None else Some (d[vpn2_of cfg vpn := e0\<lparr>pte_valid := False\<rparr>]))]"
    "tlb s' = map (\<lambda>t. if tlb_vpn t = vpn \<and>
                           (mapcounts s)[unat (pte_pfn e0) := c - 1] ! unat (pte_pfn e0) = 0
                         then t\<lparr>tlb_valid := False\<rparr> else t) (tlb s)"
proof -
  obtain sl where sl: "ptbr_slot s (vpn1_of cfg vpn) = Some sl"
    using assms by (cases "ptbr_slot s (vpn1_of cfg vpn)") (simp_all add: free_page_def Let_def)
  obtain a where a: "sl = Some a"
    using assms sl by (cases sl) (simp_all add: free_page_def Let_def)
  obtain d where d: "get_dir s a = Some d"
    using assms sl a by (cases "get_dir s a") (simp_all add: free_page_def Let_def)
  obtain e0 where e0: "nth_opt d (vpn2_of cfg vpn) = Some e0"
    using assms sl a d
    by (cases "nth_opt d (vpn2_of cfg vpn)") (simp_all add: free_page_def Let_def)
  obtain c where c: "nth_opt (mapcounts s) (unat (pte_pfn e0)) = Some c"
    using assms sl a d e0
    by (cases "nth_opt (mapcounts s) (unat (pte_pfn e0))") (simp_all add: free_page_def Let_def)
  from ptbr_slot_SomeD [OF sl [unfolded a]]
  obtain p where p: "nth_opt (procs s) (ptbr s) = Some p"
    "nth_opt (outer_ptes (pagetable p)) (vpn1_of cfg vpn) = Some (Some a)" .
  have s': "s' = s\<lparr>mapcounts := (mapcounts s)[unat (pte_pfn e0) := c - 1],
      dirs := (dirs s)[a :=
       (if list_all (\<lambda>e. \<not> pte_valid e) (d[vpn2_of cfg vpn := e0\<lparr>pte_valid := False\<rparr>])
        then None else Some (d[vpn2_of cfg vpn := e0\<lparr>pte_valid := False\<rparr>]))],
      tlb := map (\<lambda>t. if tlb_vpn t = vpn \<and>
                           (mapcounts s)[unat (pte_pfn e0) := c - 1] ! unat (pte_pfn e0) = 0
                         then t\<lparr>tlb_valid := False\<rparr> else t) (tlb s)\<rparr>"
    using assms sl a d e0 c by (simp add: free_page_def Let_def)
  show thesis
    by (rule that [OF p d e0 c]) (simp_all add: s')
qed

lemma inv_free:
  assumes tb: "tlb_backed cfg s" and ok: "tables_ok s"
    and pre: "uncached vpn s \<or> last_reference cfg vpn s"
    and run: "free_page cfg vpn s = Some s'"
  shows "tlb_backed cfg s' \<and> tables_ok s'"
proof -
  from free_page_SomeD [OF run]
  obtain p a d e0 c where k:
    "nth_opt (procs s) (ptbr s) = Some p"
    "nth_opt (outer_ptes (pagetable p)) (vpn1_of cfg vpn) = Some (Some a)"
    "get_dir s a = Some d" "nth_opt d (vpn2_of cfg vpn) = Some e0"
    "nth_opt (mapcounts s) (unat (pte_pfn e0)) = Some c"
    "procs s' = procs s" "ptbr s' = ptbr s"
    "mapcounts s' = (mapcounts s)[unat (pte_pfn e0) := c - 1]"
    "dirs s' = (dirs s)[a :=
       (if list_all (\<lambda>e. \<not> pte_valid e) (d[vpn2_of cfg vpn := e0\<lparr>pte_valid := False\<rparr>])
        then None else Some (d[vpn2_of cfg vpn := e0\<lparr>pte_valid := False\<rparr>]))]"
    "tlb s' = map (\<lambda>t. if tlb_vpn t = vpn \<and>
                           (mapcounts s)[unat (pte_pfn e0) := c - 1] ! unat (pte_pfn e0) = 0
                         then t\<lparr>tlb_valid := False\<rparr> else t) (tlb s)" .
  let ?d' = "d[vpn2_of cfg vpn := e0\<lparr>pte_valid := False\<rparr>]"
  note dist = tables_okD(1) [OF ok k(1)]
  define Z where "Z \<longleftrightarrow> (mapcounts s)[unat (pte_pfn e0) := c - 1] ! unat (pte_pfn e0) = 0"
  have tl: "tlb s' = map (\<lambda>t. if tlb_vpn t = vpn \<and> Z then t\<lparr>tlb_valid := False\<rparr> else t)
                       (tlb s)"
    unfolding k(10) Z_def ..
  have pte: "pte_of cfg s (ptbr s) vpn = Some e0"
    using k(3,4) by (simp add: pte_of_via [OF k(1,2)])
  have zz: "Z" if "last_reference cfg vpn s"
  proof -
    have "nth_opt (mapcounts s) (unat (pte_pfn e0)) = Some 1"
      using that by (simp add: last_reference_def pte)
    then have "c = 1" using k(5) by simp
    then show ?thesis using nth_opt_SomeD [OF k(5)] by (simp add: Z_def)
  qed
  have p': "nth_opt (procs s') (ptbr s) = Some p" using k(1,6) by simp
  have a: "a < length (dirs s)" using get_dir_SomeD [OF k(3)] by simp
  have "tlb_backed cfg s'"
    unfolding tlb_backed_def
  proof (intro ballI impI)
    fix t assume t: "t \<in> set (tlb s')" "tlb_valid t"
    from t(1) obtain u where u: "u \<in> set (tlb s)"
        "t = (if tlb_vpn u = vpn \<and> Z then u\<lparr>tlb_valid := False\<rparr> else u)"
      unfolding tl set_map by (rule imageE)
    have nu: "tlb_vpn u \<noteq> vpn"
    proof
      assume eq: "tlb_vpn u = vpn"
      show False
      proof (cases Z)
        case True
        then have "t = u\<lparr>tlb_valid := False\<rparr>" using u(2) eq by simp
        then show False using t(2) by simp
      next
        case False
        then have tu: "t = u" using u(2) by simp
        have "uncached vpn s" using pre zz False by blast
        from uncachedD [OF this u(1)] t(2) eq show False by (simp add: tu)
      qed
    qed
    then have tu: "t = u" using u(2) by simp
    have t0: "t \<in> set (tlb s)" and ne: "tlb_vpn t \<noteq> vpn"
      using u(1) nu by (simp_all add: tu)
    from tlb_backedD [OF tb t0 t(2)]
    obtain e1 where e1: "pte_of cfg s (ptbr s) (tlb_vpn t) = Some e1" "pte_valid e1"
        "pte_pfn e1 = tlb_pfn t" "pte_rw e1 AND tlb_rw t = tlb_rw t" .
    from pte_of_SomeD [OF e1(1)]
    obtain p0 a0 d0 where m: "nth_opt (procs s) (ptbr s) = Some p0"
        "nth_opt (outer_ptes (pagetable p0)) (vpn1_of cfg (tlb_vpn t)) = Some (Some a0)"
        "get_dir s a0 = Some d0" "nth_opt d0 (vpn2_of cfg (tlb_vpn t)) = Some e1" .
    have p0: "p0 = p" using m(1) k(1) by simp
    note sl = m(2) [unfolded p0]
    have "pte_of cfg s' (ptbr s) (tlb_vpn t) = Some e1"
    proof (cases "a0 = a")
      case False
      then have "get_dir s' a0 = get_dir s a0" by (simp add: get_dir_def k(9))
      then show ?thesis using m(3,4) by (simp add: pte_of_via [OF p' sl])
    next
      case True
      have "vpn1_of cfg (tlb_vpn t) = vpn1_of cfg vpn"
        using dir_addrs_distinct_nth [OF dist, of "vpn1_of cfg (tlb_vpn t)" "vpn1_of cfg vpn" a]
          nth_opt_SomeD [OF sl] nth_opt_SomeD [OF k(2)] True by simp
      then have j: "vpn2_of cfg (tlb_vpn t) \<noteq> vpn2_of cfg vpn"
        using vpn_split_inject [of cfg "tlb_vpn t" vpn] ne by blast
      have d0: "d0 = d" using m(3) k(3) True by simp
      have jl: "vpn2_of cfg (tlb_vpn t) < length d" "d ! vpn2_of cfg (tlb_vpn t) = e1"
        using nth_opt_SomeD [OF m(4)] by (simp_all add: d0)
      have nd: "?d' ! vpn2_of cfg (tlb_vpn t) = e1" using j jl by simp
      have "vpn2_of cfg (tlb_vpn t) < length ?d'" using jl by simp
      from nth_mem [OF this] have "e1 \<in> set ?d'" unfolding nd .
      then have "\<not> list_all (\<lambda>e. \<not> pte_valid e) ?d'"
        using e1(2) by (auto simp: list_all_iff)
      then have "get_dir s' a = Some ?d'" using a by (simp add: get_dir_def k(9))
      then show ?thesis using j jl True
        by (simp add: pte_of_via [OF p' sl] nth_opt_def)
    qed
    then show "\<exists>e. pte_of cfg s' (ptbr s') (tlb_vpn t) = Some e \<and> pte_valid e \<and>
             pte_pfn e = tlb_pfn t \<and> pte_rw e AND tlb_rw t = tlb_rw t"
      using e1 by (simp add: k(7))
  qed
  moreover have "tables_ok s'"
    using ok by (simp add: tables_ok_def k(6,9))
  ultimately show ?thesis ..
qed


text \<open>
  One entry of the active page table is rewritten and the TLB entries for its page are
  adjusted to it.
\<close>

lemma tlb_backed_entry_update:
  assumes tb: "tlb_backed cfg s" and ok: "tables_ok s"
    and p: "nth_opt (procs s) (ptbr s) = Some p"
    and slot: "nth_opt (outer_ptes (pagetable p)) (vpn1_of cfg vpn) = Some (Some a)"
    and dir: "get_dir s a = Some d" "vpn2_of cfg vpn < length d"
    and s': "procs s' = procs s" "dirs s' = (dirs s)[a := Some (d[vpn2_of cfg vpn := x])]"
            "ptbr s' = ptbr s" "tlb s' = map g (tlb s)"
    and other: "\<And>t. \<not> (tlb_valid t \<and> tlb_vpn t = vpn) \<Longrightarrow> g t = t"
    and mine: "\<And>t. t \<in> set (tlb s) \<Longrightarrow> tlb_valid t \<Longrightarrow> tlb_vpn t = vpn \<Longrightarrow>
                 tlb_vpn (g t) = vpn \<and> pte_valid x \<and> pte_pfn x = tlb_pfn (g t) \<and>
                 pte_rw x AND tlb_rw (g t) = tlb_rw (g t)"
  shows "tlb_backed cfg s' \<and> tables_ok s'"
proof -
  note dist = tables_okD(1) [OF ok p]
  have "tlb_backed cfg s'"
    unfolding tlb_backed_def
  proof (intro ballI impI)
    fix t assume t: "t \<in> set (tlb s')" "tlb_valid t"
    from t(1) obtain u where u: "u \<in> set (tlb s)" "t = g u"
      unfolding s'(4) set_map by (rule imageE)
    show "\<exists>e. pte_of cfg s' (ptbr s') (tlb_vpn t) = Some e \<and> pte_valid e \<and>
             pte_pfn e = tlb_pfn t \<and> pte_rw e AND tlb_rw t = tlb_rw t"
    proof (cases "tlb_valid u \<and> tlb_vpn u = vpn")
      case True
      note m = mine [OF u(1) True [THEN conjunct1] True [THEN conjunct2]]
      have "pte_of cfg s' (ptbr s) vpn = Some x"
        by (rule pte_of_entry_written [OF p slot dir s'(1,2)])
      then show ?thesis using m by (simp add: u(2) s'(3))
    next
      case False
      then have tu: "t = u" using other u(2) by simp
      then have uv: "tlb_valid u" using t(2) by simp
      then have ne: "tlb_vpn u \<noteq> vpn" using False by simp
      from tlb_backedD [OF tb u(1) uv]
      obtain e where e: "pte_of cfg s (ptbr s) (tlb_vpn u) = Some e" "pte_valid e"
          "pte_pfn e = tlb_pfn u" "pte_rw e AND tlb_rw u = tlb_rw u" .
      have "pte_of cfg s' (ptbr s) (tlb_vpn u) = pte_of cfg s (ptbr s) (tlb_vpn u)"
        by (rule pte_of_entry_update [OF p dist slot dir(1) s'(1,2) ne])
      then show ?thesis using e by (simp add: tu s'(3))
    qed
  qed
  moreover have "tables_ok s'"
    using ok by (simp add: tables_ok_def s'(1,2))
  ultimately show ?thesis ..
qed

lemma inv_fault_resolvable:
  assumes tb: "tlb_backed cfg s" and ok: "tables_ok s"
    and cr: "cow_resolvable cfg vpn rw s"
    and run: "handle_page_fault cfg vpn rw s = Some (r, s')"
  shows "tlb_backed cfg s' \<and> tables_ok s'"
proof -
  obtain sl where sl: "ptbr_slot s (vpn1_of cfg vpn) = Some sl"
    using run
    by (cases "ptbr_slot s (vpn1_of cfg vpn)") (simp_all add: handle_page_fault_def Let_def)
  show ?thesis
  proof (cases sl)
    case None
    then have "s' = s" using run sl by (simp add: handle_page_fault_def Let_def)
    then show ?thesis using tb ok by simp
  next
    case (Some a)
    note slot = sl [unfolded Some]
    from ptbr_slot_SomeD [OF slot]
    obtain p where p: "nth_opt (procs s) (ptbr s) = Some p"
      "nth_opt (outer_ptes (pagetable p)) (vpn1_of cfg vpn) = Some (Some a)" .
    from run slot show ?thesis
    proof (cases rule: handle_page_fault_cases)
      case unchanged
      then show ?thesis using tb ok by simp
    next
      case (in_place d e c)
      have len: "vpn2_of cfg vpn < length d" using nth_opt_SomeD [OF in_place(2)] by simp
      have pte: "pte_of cfg s (ptbr s) vpn = Some e"
        using in_place(1,2) by (simp add: pte_of_via [OF p])
      have sub: "pte_private e AND rw = rw"
        using cr in_place(3,4,5) by (simp add: cow_resolvable_def pte)
      let ?x = "e\<lparr>pte_rw := pte_private e, pte_private := 0\<rparr>"
      let ?g = "\<lambda>t. if tlb_valid t \<and> tlb_vpn t = vpn then t\<lparr>tlb_rw := rw\<rparr> else t"
      have s1: "procs s' = procs s"
          "dirs s' = (dirs s)[a := Some (d[vpn2_of cfg vpn := ?x])]"
          "ptbr s' = ptbr s" "tlb s' = map ?g (tlb s)"
        by (simp_all add: in_place(9) tlb_set_rw_def)
      show ?thesis
      proof (rule tlb_backed_entry_update [OF tb ok p in_place(1) len s1])
        fix t assume "\<not> (tlb_valid t \<and> tlb_vpn t = vpn)"
        then show "?g t = t" by (rule if_not_P)
      next
        fix t assume t: "t \<in> set (tlb s)" "tlb_valid t" "tlb_vpn t = vpn"
        from tlb_backedD [OF tb t(1,2)] pte t(3)
        have "pte_pfn e = tlb_pfn t" by auto
        then show "tlb_vpn (?g t) = vpn \<and> pte_valid ?x \<and> pte_pfn ?x = tlb_pfn (?g t) \<and>
                 pte_rw ?x AND tlb_rw (?g t) = tlb_rw (?g t)"
          using t(2,3) in_place(3) sub by simp
      qed
    next
      case (copy d e c pfn s2)
      have len: "vpn2_of cfg vpn < length d" using nth_opt_SomeD [OF copy(2)] by simp
      have pte: "pte_of cfg s (ptbr s) vpn = Some e"
        using copy(1,2) by (simp add: pte_of_via [OF p])
      have sub: "pte_private e AND rw = rw" and free: "0 \<in> set (mapcounts s)"
        using cr copy(3,4,5,6,7) by (simp_all add: cow_resolvable_def pte)
      have klt: "find_free (mapcounts s) < length (mapcounts s)"
        using free by (simp add: find_free_lt_mem)
      let ?k = "of_nat (find_free (mapcounts s)) :: u32"
      let ?x = "\<lparr>pte_valid = True, pte_rw = pte_private e, pte_pfn = ?k, pte_private = 0\<rparr>"
      let ?g = "\<lambda>t. if tlb_valid t \<and> tlb_vpn t = vpn
                    then t\<lparr>tlb_pfn := ?k, tlb_rw := rw\<rparr> else t"
      note res = handle_page_fault_copy [OF slot copy(1,2,3,4,5,6,7) klt]
      have "Some (r, s') = Some (True, s\<lparr>dirs := (dirs s)[a := Some (d[vpn2_of cfg vpn := ?x])],
                   mapcounts := (mapcounts s)[unat (pte_pfn e) := c - 1,
                                             find_free (mapcounts s) := 1],
                   tlb := tlb_set_rw vpn rw (tlb_set_pfn vpn ?k (tlb s))\<rparr>)"
        using run unfolding res by (rule sym)
      then have s1: "procs s' = procs s"
          "dirs s' = (dirs s)[a := Some (d[vpn2_of cfg vpn := ?x])]"
          "ptbr s' = ptbr s" "tlb s' = map ?g (tlb s)"
        by (simp_all add: tlb_set_rw_def tlb_set_pfn_def comp_def if_distrib cong: if_cong)
      show ?thesis
      proof (rule tlb_backed_entry_update [OF tb ok p copy(1) len s1])
        fix t assume "\<not> (tlb_valid t \<and> tlb_vpn t = vpn)"
        then show "?g t = t" by (rule if_not_P)
      next
        fix t assume t: "t \<in> set (tlb s)" "tlb_valid t" "tlb_vpn t = vpn"
        show "tlb_vpn (?g t) = vpn \<and> pte_valid ?x \<and> pte_pfn ?x = tlb_pfn (?g t) \<and>
                 pte_rw ?x AND tlb_rw (?g t) = tlb_rw (?g t)"
          using t(2,3) sub by simp
      qed
    qed
  qed
qed


lemma inv_fault_uncached:
  assumes tb: "tlb_backed cfg s" and ok: "tables_ok s"
    and un: "uncached vpn s"
    and run: "handle_page_fault cfg vpn rw s = Some (r, s')"
  shows "tlb_backed cfg s' \<and> tables_ok s'"
proof -
  obtain sl where sl: "ptbr_slot s (vpn1_of cfg vpn) = Some sl"
    using run
    by (cases "ptbr_slot s (vpn1_of cfg vpn)") (simp_all add: handle_page_fault_def Let_def)
  show ?thesis
  proof (cases sl)
    case None
    then have "s' = s" using run sl by (simp add: handle_page_fault_def Let_def)
    then show ?thesis using tb ok by simp
  next
    case (Some a)
    note slot = sl [unfolded Some]
    from ptbr_slot_SomeD [OF slot]
    obtain p where p: "nth_opt (procs s) (ptbr s) = Some p"
      "nth_opt (outer_ptes (pagetable p)) (vpn1_of cfg vpn) = Some (Some a)" .
    have none: "P" if "t \<in> set (tlb s)" "tlb_valid t" "tlb_vpn t = vpn" for t P
      using uncachedD [OF un that(1,2)] that(3) by simp
    from run slot show ?thesis
    proof (cases rule: handle_page_fault_cases)
      case unchanged
      then show ?thesis using tb ok by simp
    next
      case (in_place d e c)
      have len: "vpn2_of cfg vpn < length d" using nth_opt_SomeD [OF in_place(2)] by simp
      let ?x = "e\<lparr>pte_rw := pte_private e, pte_private := 0\<rparr>"
      let ?g = "\<lambda>t. if tlb_valid t \<and> tlb_vpn t = vpn then t\<lparr>tlb_rw := rw\<rparr> else t"
      have s1: "procs s' = procs s"
          "dirs s' = (dirs s)[a := Some (d[vpn2_of cfg vpn := ?x])]"
          "ptbr s' = ptbr s" "tlb s' = map ?g (tlb s)"
        by (simp_all add: in_place(9) tlb_set_rw_def)
      show ?thesis
      proof (rule tlb_backed_entry_update [OF tb ok p in_place(1) len s1])
        fix t assume "\<not> (tlb_valid t \<and> tlb_vpn t = vpn)"
        then show "?g t = t" by (rule if_not_P)
      next
        fix t assume t: "t \<in> set (tlb s)" "tlb_valid t" "tlb_vpn t = vpn"
        show "tlb_vpn (?g t) = vpn \<and> pte_valid ?x \<and> pte_pfn ?x = tlb_pfn (?g t) \<and>
                 pte_rw ?x AND tlb_rw (?g t) = tlb_rw (?g t)"
          by (rule none [OF t])
      qed
    next
      case (copy d e c pfn s2)
      have len: "vpn2_of cfg vpn < length d" using nth_opt_SomeD [OF copy(2)] by simp
      let ?x1 = "e\<lparr>pte_rw := pte_private e, pte_private := 0\<rparr>"
      let ?mid = "s\<lparr>dirs := (dirs s)[a := Some (d[vpn2_of cfg vpn := ?x1])],
                     mapcounts := (mapcounts s)[unat (pte_pfn e) := c - 1]\<rparr>"
      let ?g = "\<lambda>t. if tlb_valid t \<and> tlb_vpn t = vpn
                    then t\<lparr>tlb_pfn := pfn, tlb_rw := rw\<rparr> else t"
      have mid: "nth_opt (procs ?mid) (ptbr ?mid) = Some p"
          "get_dir ?mid a = Some (d[vpn2_of cfg vpn := ?x1])"
        using p(1) get_dir_same [OF copy(1)] by simp_all
      have "\<exists>x. procs s2 = procs s \<and> dirs s2 = (dirs s)[a := Some (d[vpn2_of cfg vpn := x])] \<and>
                ptbr s2 = ptbr s \<and> tlb s2 = tlb s"
        using copy(9)
      proof (cases rule: alloc_page_cases)
        case full
        then show ?thesis by auto
      next
        case (new_dir p')
        have "p' = p" using new_dir(1) mid(1) by simp
        then show ?thesis using new_dir(2) p(2) by simp
      next
        case (old_dir p' a' d')
        have "p' = p" using old_dir(1) mid(1) by simp
        then have a': "a' = a" using old_dir(2) p(2) by simp
        have d': "d' = d[vpn2_of cfg vpn := ?x1]" using old_dir(3) mid(2) by (simp add: a')
        show ?thesis using old_dir(5,6,7,8) by (auto simp: a' d')
      qed
      then obtain x where x: "procs s2 = procs s"
          "dirs s2 = (dirs s)[a := Some (d[vpn2_of cfg vpn := x])]"
          "ptbr s2 = ptbr s" "tlb s2 = tlb s"
        by blast
      have s1: "procs s' = procs s"
          "dirs s' = (dirs s)[a := Some (d[vpn2_of cfg vpn := x])]"
          "ptbr s' = ptbr s" "tlb s' = map ?g (tlb s)"
        using x
        by (simp_all add: copy(10) tlb_set_rw_def tlb_set_pfn_def comp_def if_distrib
              cong: if_cong)
      show ?thesis
      proof (rule tlb_backed_entry_update [OF tb ok p copy(1) len s1])
        fix t assume "\<not> (tlb_valid t \<and> tlb_vpn t = vpn)"
        then show "?g t = t" by (rule if_not_P)
      next
        fix t assume t: "t \<in> set (tlb s)" "tlb_valid t" "tlb_vpn t = vpn"
        show "tlb_vpn (?g t) = vpn \<and> pte_valid x \<and> pte_pfn x = tlb_pfn (?g t) \<and>
                 pte_rw x AND tlb_rw (?g t) = tlb_rw (?g t)"
          by (rule none [OF t])
      qed
    qed
  qed
qed

lemma inv_fault:
  assumes "tlb_backed cfg s" "tables_ok s"
    and "uncached vpn s \<or> cow_resolvable cfg vpn rw s"
    and "handle_page_fault cfg vpn rw s = Some (r, s')"
  shows "tlb_backed cfg s' \<and> tables_ok s'"
  using assms(3)
proof
  assume "uncached vpn s"
  then show ?thesis by (rule inv_fault_uncached [OF assms(1,2) _ assms(4)])
next
  assume "cow_resolvable cfg vpn rw s"
  then show ?thesis by (rule inv_fault_resolvable [OF assms(1,2) _ assms(4)])
qed

lemma tables_ok_empty:
  assumes "empty_state s"
  shows "tables_ok s"
  unfolding tables_ok_def
proof (intro ballI conjI)
  fix p assume "p \<in> set (procs s)"
  then have "list_all (\<lambda>slot. slot = None) (outer_ptes (pagetable p))"
    using assms by (simp add: empty_state_def list_all_iff)
  then have e: "dir_addrs (outer_ptes (pagetable p)) = []" by (rule dir_addrs_all_None)
  show "distinct (dir_addrs (outer_ptes (pagetable p)))" by (simp add: e)
  fix a assume "a \<in> set (dir_addrs (outer_ptes (pagetable p)))"
  then show "a < length (dirs s)" by (simp add: e)
qed

lemma reachable_invariant: "reachable cfg s \<Longrightarrow> tlb_backed cfg s \<and> tables_ok s"
proof (induction rule: reachable.induct)
  case (start s)
  then show ?case by (simp add: tlb_backed_empty tables_ok_empty empty_state_def)
next
  case (insert s vpn rw pfn s')
  from insert_tlb_SomeD [OF insert.hyps(3)]
  obtain i where "s' = s\<lparr>tlb := (tlb s)[i :=
      \<lparr>tlb_valid = True, tlb_rw = rw, tlb_vpn = vpn, tlb_pfn = pfn\<rparr>]\<rparr>" .
  then have "tables_ok s'" using insert.IH by (simp add: tables_ok_def)
  then show ?case using tlb_backed_insert [OF _ insert.hyps(2,3)] insert.IH by blast
next
  case (alloc s vpn rw r s')
  then show ?case using inv_alloc by blast
next
  case (free s vpn s')
  then show ?case using inv_free by blast
next
  case (fault s vpn rw ok s')
  then show ?case using inv_fault by blast
next
  case (switch s p s')
  then show ?case using tlb_backed_switch tables_ok_switch by blast
qed

text \<open>
  C8. The claim as stated: after any sequence of the operations from the empty state,
  a valid TLB entry is confirmed by the page-table walk. Five runs from \<open>boot_state\<close>
  that end in a state where it is not.

  \<^item> \<open>free_page\<close> of a shared page: the process allocates the pages 0 and 1 and forks;
  the child reads page 0, the walk succeeds and the translation enters the TLB; the child
  frees page 0. The count of frame 0 falls from 2 to 1, so \<open>free_page\<close> keeps the TLB
  entry, while the entry of the page table is now invalid.

  \<^item> \<open>alloc_page\<close> of a cached page: the process allocates page 0, the translation
  enters the TLB, and the process allocates page 0 again. The entry of the page table
  now maps frame 1, the TLB entry still frame 0.

  \<^item> A fault for rights beyond the backup: in the forked state the child faults on page 0
  with the rights 6. The entry gets the rights 3 of the backup, the TLB entry the rights 6,
  and the walk for the rights 6 fails.

  \<^item> A copy-on-write fault without a free frame: the process allocates the pages 0, 1
  and 2 and forks; the child reads page 0 and then writes to it. \<open>alloc_page\<close> returns
  -1, which becomes the frame of the TLB entry, while the page table still maps frame 0.

  \<^item> \<open>insert_tlb\<close> of a translation that no walk gave: the entry is valid and the walk
  fails.
\<close>

theorem tlb_consistency_counterexample:
  "empty_state boot_state
   \<and> (map_option snd (alloc_page example_cfg 0 3 boot_state)
        \<bind> (map_option snd \<circ> alloc_page example_cfg 1 3)) = Some two_pages_state
   \<and> map_option (translate example_cfg 0 1) (switch_process example_cfg 1 two_pages_state)
        = Some (Some 0)
   \<and> (switch_process example_cfg 1 two_pages_state \<bind> insert_tlb 0 1 0) = Some forked_state
   \<and> free_page example_cfg 0 forked_state = Some freed_shared_state
   \<and> tlb freed_shared_state
        = [\<lparr>tlb_valid = True, tlb_rw = 1, tlb_vpn = 0, tlb_pfn = 0\<rparr>, no_entry]
   \<and> translate example_cfg 0 1 freed_shared_state = None
   \<and> \<not> tlb_consistent example_cfg freed_shared_state
   \<and> map_option (translate example_cfg 0 3 \<circ> snd) (alloc_page example_cfg 0 3 boot_state)
        = Some (Some 0)
   \<and> map_option (\<lambda>s. (tlb s, translate example_cfg 0 3 s))
        (map_option snd (alloc_page example_cfg 0 3 boot_state) \<bind> insert_tlb 0 3 0
           \<bind> (map_option snd \<circ> alloc_page example_cfg 0 3))
        = Some ([\<lparr>tlb_valid = True, tlb_rw = 3, tlb_vpn = 0, tlb_pfn = 0\<rparr>, no_entry],
                Some 1)
   \<and> map_option (\<lambda>s. (tlb s, translate example_cfg 0 6 s))
        (map_option snd (handle_page_fault example_cfg 0 6 forked_state))
        = Some ([\<lparr>tlb_valid = True, tlb_rw = 6, tlb_vpn = 0, tlb_pfn = 2\<rparr>, no_entry],
                None)
   \<and> map_option (translate example_cfg 0 1)
        (map_option snd (alloc_page example_cfg 2 3 two_pages_state)
           \<bind> switch_process example_cfg 1)
        = Some (Some 0)
   \<and> map_option (\<lambda>s. (tlb s, translate example_cfg 0 2 s))
        (map_option snd (alloc_page example_cfg 2 3 two_pages_state)
           \<bind> switch_process example_cfg 1 \<bind> insert_tlb 0 1 0
           \<bind> (map_option snd \<circ> handle_page_fault example_cfg 0 2))
        = Some ([\<lparr>tlb_valid = True, tlb_rw = 2, tlb_vpn = 0, tlb_pfn = - 1\<rparr>, no_entry],
                Some 0)
   \<and> map_option (\<lambda>s. (tlb s, translate example_cfg 0 1 s))
        (insert_tlb 0 1 7 boot_state)
        = Some ([\<lparr>tlb_valid = True, tlb_rw = 1, tlb_vpn = 0, tlb_pfn = 7\<rparr>, no_entry],
                None)"
proof -
  have tl: "tlb freed_shared_state
        = [\<lparr>tlb_valid = True, tlb_rw = 1, tlb_vpn = 0, tlb_pfn = 0\<rparr>, no_entry]"
    by (simp add: example_defs)
  have tr: "translate example_cfg 0 1 freed_shared_state = None"
    by (simp add: eval_defs example_defs)
  have "\<not> tlb_consistent example_cfg freed_shared_state"
  proof
    assume "tlb_consistent example_cfg freed_shared_state"
    then have "translate example_cfg 0 1 freed_shared_state = Some 0"
      unfolding tlb_consistent_def tl by simp
    then show False using tr by simp
  qed
  moreover have "empty_state boot_state"
    by (simp add: empty_state_def example_defs)
  moreover have "(map_option snd (alloc_page example_cfg 0 3 boot_state)
        \<bind> (map_option snd \<circ> alloc_page example_cfg 1 3)) = Some two_pages_state"
    by (simp add: eval_defs example_defs Let_def numeral_2_eq_2)
  moreover have "map_option (translate example_cfg 0 1)
        (switch_process example_cfg 1 two_pages_state) = Some (Some 0)"
    by (simp add: eval_defs example_defs Let_def)
  moreover have "(switch_process example_cfg 1 two_pages_state \<bind> insert_tlb 0 1 0)
        = Some forked_state"
    by (simp add: eval_defs example_defs Let_def)
  moreover have "free_page example_cfg 0 forked_state = Some freed_shared_state"
    by (simp add: eval_defs example_defs Let_def)
  moreover have "map_option (translate example_cfg 0 3 \<circ> snd)
        (alloc_page example_cfg 0 3 boot_state) = Some (Some 0)"
    by (simp add: eval_defs example_defs Let_def numeral_2_eq_2)
  moreover have "map_option
        (\<lambda>s. (tlb s, translate example_cfg 0 3 s))
        (map_option snd (alloc_page example_cfg 0 3 boot_state) \<bind> insert_tlb 0 3 0
           \<bind> (map_option snd \<circ> alloc_page example_cfg 0 3))
        = Some ([\<lparr>tlb_valid = True, tlb_rw = 3, tlb_vpn = 0, tlb_pfn = 0\<rparr>, no_entry],
                Some 1)"
    by (simp add: eval_defs example_defs Let_def numeral_2_eq_2)
  moreover have "map_option
        (\<lambda>s. (tlb s, translate example_cfg 0 6 s))
        (map_option snd (handle_page_fault example_cfg 0 6 forked_state))
        = Some ([\<lparr>tlb_valid = True, tlb_rw = 6, tlb_vpn = 0, tlb_pfn = 2\<rparr>, no_entry],
                None)"
    by (simp add: eval_defs example_defs Let_def)
  moreover have "map_option (translate example_cfg 0 1)
        (map_option snd (alloc_page example_cfg 2 3 two_pages_state)
           \<bind> switch_process example_cfg 1)
        = Some (Some 0)"
    by (simp add: eval_defs example_defs Let_def replicate_2)
  moreover have "map_option
        (\<lambda>s. (tlb s, translate example_cfg 0 2 s))
        (map_option snd (alloc_page example_cfg 2 3 two_pages_state)
           \<bind> switch_process example_cfg 1 \<bind> insert_tlb 0 1 0
           \<bind> (map_option snd \<circ> handle_page_fault example_cfg 0 2))
        = Some ([\<lparr>tlb_valid = True, tlb_rw = 2, tlb_vpn = 0, tlb_pfn = - 1\<rparr>, no_entry],
                Some 0)"
    by (simp add: eval_defs example_defs Let_def replicate_2)
  moreover have "map_option
        (\<lambda>s. (tlb s, translate example_cfg 0 1 s))
        (insert_tlb 0 1 7 boot_state)
        = Some ([\<lparr>tlb_valid = True, tlb_rw = 1, tlb_vpn = 0, tlb_pfn = 7\<rparr>, no_entry],
                None)"
    by (simp add: eval_defs example_defs)
  ultimately show ?thesis using tl tr by blast
qed

text \<open>
  C8, amended. Take the states reached from an empty state by any sequence of the
  operations in which every call has a defined result, \<open>insert_tlb\<close> stores the result of
  a successful walk, and the calls for a page that has a valid TLB entry are these:
  \<open>alloc_page\<close> when no frame is free, \<open>free_page\<close> for the last reference to the frame,
  and resolvable faults. The calls for pages without a valid TLB entry and \<open>switch_process\<close>
  are not restricted. In every such state a valid TLB entry with frame P and rights R
  is confirmed by the walk: the translation of its page for any rights within R yields P.
\<close>

theorem reachable_tlb_consistent:
  assumes "reachable cfg s"
    and "t \<in> set (tlb s)" "tlb_valid t"
    and "r AND tlb_rw t = r"
  shows "translate cfg (tlb_vpn t) r s = Some (tlb_pfn t)"
proof -
  have "tlb_consistent cfg s"
    using reachable_invariant [OF assms(1)] tlb_backed_consistent by blast
  then show ?thesis using assms(2-4) unfolding tlb_consistent_def by blast
qed

theorem reachable_tlb_consistent_witness:
  "switch_process example_cfg 1 two_pages_state
      = Some (forked_state\<lparr>tlb := [no_entry, no_entry]\<rparr>)
   \<and> (switch_process example_cfg 0 (forked_state\<lparr>tlb := [no_entry, no_entry]\<rparr>)
        \<bind> switch_process example_cfg 1 \<bind> insert_tlb 0 1 0) = Some round_trip_state
   \<and> handle_page_fault example_cfg 0 2 round_trip_state = Some (True, child_written_state)
   \<and> reachable example_cfg child_written_state
   \<and> tlb child_written_state
        = [\<lparr>tlb_valid = True, tlb_rw = 2, tlb_vpn = 0, tlb_pfn = 2\<rparr>, no_entry]
   \<and> (2 :: u32) AND 2 = 2
   \<and> translate example_cfg 0 2 child_written_state = Some 2"
proof -
  let ?t = "\<lparr>tlb_valid = True, tlb_rw = 2, tlb_vpn = 0, tlb_pfn = 2\<rparr>"
  let ?s1 = "boot_state
      \<lparr>mapcounts := [1, 0, 0],
       procs := [\<lparr>pid = 0, pagetable = \<lparr>outer_ptes = [Some 0, None]\<rparr>\<rparr>],
       dirs := [Some [\<lparr>pte_valid = True, pte_rw = 3, pte_pfn = 0, pte_private = 0\<rparr>,
                      example_junk\<lparr>pte_valid := False\<rparr>]]\<rparr>"
  let ?s3 = "forked_state\<lparr>tlb := [no_entry, no_entry]\<rparr>"
  let ?s4 = "?s3\<lparr>processes := [0, 1], current := 0, ptbr := 0\<rparr>"
  let ?s5 = "?s3\<lparr>processes := [0, 1, 0]\<rparr>"
  have r0: "reachable example_cfg boot_state"
    by (rule reachable.start) (simp add: empty_state_def example_defs)
  have a1: "alloc_page example_cfg 0 3 boot_state = Some (0, ?s1)"
    by (simp add: eval_defs example_defs Let_def numeral_2_eq_2)
  have u1: "uncached 0 boot_state \<or> 0 \<notin> set (mapcounts boot_state)"
    by (simp add: uncached_def example_defs)
  have r1: "reachable example_cfg ?s1"
    by (rule reachable.alloc [OF r0 u1 a1])
  have a2: "alloc_page example_cfg 1 3 ?s1 = Some (1, two_pages_state)"
    by (simp add: eval_defs example_defs Let_def numeral_2_eq_2)
  have u2: "uncached 1 ?s1 \<or> 0 \<notin> set (mapcounts ?s1)"
    by (simp add: uncached_def example_defs)
  have r2: "reachable example_cfg two_pages_state"
    by (rule reachable.alloc [OF r1 u2 a2])
  have sw: "switch_process example_cfg 1 two_pages_state = Some ?s3"
    by (simp add: eval_defs example_defs Let_def)
  have r3: "reachable example_cfg ?s3"
    by (rule reachable.switch [OF r2 sw])
  have sw0: "switch_process example_cfg 0 ?s3 = Some ?s4"
    by (simp add: eval_defs example_defs Let_def)
  have r4: "reachable example_cfg ?s4"
    by (rule reachable.switch [OF r3 sw0])
  have sw1: "switch_process example_cfg 1 ?s4 = Some ?s5"
    by (simp add: eval_defs example_defs Let_def)
  have r5: "reachable example_cfg ?s5"
    by (rule reachable.switch [OF r4 sw1])
  have tr: "translate example_cfg 0 1 ?s5 = Some 0"
    by (simp add: eval_defs example_defs)
  have ins: "insert_tlb 0 1 0 ?s5 = Some round_trip_state"
    by (simp add: eval_defs example_defs)
  have r6: "reachable example_cfg round_trip_state"
    by (rule reachable.insert [OF r5 tr ins])
  have cow: "uncached 0 round_trip_state \<or> cow_resolvable example_cfg 0 2 round_trip_state"
    by (simp add: cow_resolvable_def eval_defs example_defs)
  have hf: "handle_page_fault example_cfg 0 2 round_trip_state
              = Some (True, child_written_state)"
    by (simp add: eval_defs example_defs Let_def)
  have r7: "reachable example_cfg child_written_state"
    by (rule reachable.fault [OF r6 cow hf])
  have tl: "tlb child_written_state = [?t, no_entry]"
    by (simp add: example_defs)
  have mem: "?t \<in> set (tlb child_written_state)" by (simp add: tl)
  have "translate example_cfg (tlb_vpn ?t) 2 child_written_state = Some (tlb_pfn ?t)"
    by (rule reachable_tlb_consistent [OF r7 mem]) simp_all
  then show ?thesis using r7 tl sw sw0 sw1 ins hf by simp
qed

end
